theory Spec2Isabelle
  imports Main "HOL-Library.Word"
begin

unbundle bit_operations_syntax

section \<open>Data model of ppp-md4.c (native backend)\<close>

text \<open>
  \<^verbatim>\<open>ppp-md4.c\<close> holds two backends chosen at compile time.  This theory embeds the
  native one (the branch without \<^verbatim>\<open>OPENSSL_HAVE_MD4\<close>): the engine \<^verbatim>\<open>MD4Init\<close>,
  \<^verbatim>\<open>MDblock\<close>, \<^verbatim>\<open>MD4Update\<close>, \<^verbatim>\<open>MD4Final\<close>, \<^verbatim>\<open>MD4Print\<close> and the adapter
  \<^verbatim>\<open>md4_init\<close>, \<^verbatim>\<open>md4_update\<close>, \<^verbatim>\<open>md4_final\<close>, with 32-bit \<^verbatim>\<open>int\<close> and
  \<^verbatim>\<open>unsigned int\<close>, a 64-bit \<^verbatim>\<open>size_t\<close>, and the branch of \<^verbatim>\<open>md4_update\<close> that is
  not for NetBSD.
\<close>

type_synonym byte = "8 word"
type_synonym u32 = "32 word"

text \<open>
  A non-null \<^verbatim>\<open>unsigned char *\<close> is modelled by the bytes readable through it:
  \<open>p i\<close> is \<^verbatim>\<open>p[i]\<close>.  \<open>None\<close> is the NULL pointer.  Nothing is assumed about
  the bytes behind the end of the caller's data; theorems quantify over them.
\<close>

type_synonym mem = "nat \<Rightarrow> byte"
type_synonym ptr = "mem option"

text \<open>\<^verbatim>\<open>typedef struct { unsigned int buffer[4]; unsigned char count[8]; unsigned int done; } MD4_CTX;\<close>\<close>

record MD4_CTX =
  buffer :: "u32 list"
  count :: "byte list"
  "done" :: u32

text \<open>
  What the C code does without returning a value is made explicit: a \<open>fault\<close> is an
  access the C standard leaves undefined (reading through NULL, writing behind
  \<^verbatim>\<open>count[7]\<close>), a \<open>diag\<close> is one line printed on stdout by \<^verbatim>\<open>printf\<close>.
\<close>

datatype fault = NullDeref | CountOverrun

datatype diag = AlreadyDone | IllegalCount u32

section \<open>Magic constants and macros\<close>

definition I0 :: u32 where "I0 = 0x67452301"
definition I1 :: u32 where "I1 = 0xefcdab89"
definition I2 :: u32 where "I2 = 0x98badcfe"
definition I3 :: u32 where "I3 = 0x10325476"

text \<open>The value of a C octal literal, given by its digits after the leading 0.\<close>

definition octal :: "nat list \<Rightarrow> nat" where
  "octal ds = foldl (\<lambda>acc d. 8 * acc + d) 0 ds"

text \<open>\<^verbatim>\<open>#define C2 013240474631\<close> and \<^verbatim>\<open>#define C3 015666365641\<close>\<close>

definition C2 :: u32 where "C2 = of_nat (octal [1,3,2,4,0,4,7,4,6,3,1])"
definition C3 :: u32 where "C3 = of_nat (octal [1,5,6,6,6,3,6,5,6,4,1])"

definition fs1 :: nat where "fs1 = 3"
definition fs2 :: nat where "fs2 = 7"
definition fs3 :: nat where "fs3 = 11"
definition fs4 :: nat where "fs4 = 19"
definition gs1 :: nat where "gs1 = 3"
definition gs2 :: nat where "gs2 = 5"
definition gs3 :: nat where "gs3 = 9"
definition gs4 :: nat where "gs4 = 13"
definition hs1 :: nat where "hs1 = 3"
definition hs2 :: nat where "hs2 = 9"
definition hs3 :: nat where "hs3 = 11"
definition hs4 :: nat where "hs4 = 15"

definition f :: "u32 \<Rightarrow> u32 \<Rightarrow> u32 \<Rightarrow> u32" where
  "f X Y Z = (X AND Y) OR ((NOT X) AND Z)"

definition g :: "u32 \<Rightarrow> u32 \<Rightarrow> u32 \<Rightarrow> u32" where
  "g X Y Z = (X AND Y) OR (X AND Z) OR (Y AND Z)"

definition h :: "u32 \<Rightarrow> u32 \<Rightarrow> u32 \<Rightarrow> u32" where
  "h X Y Z = X XOR Y XOR Z"

text \<open>\<^verbatim>\<open>#define rot(X,S) (tmp=X,(tmp<<S) | (tmp>>(32-S)))\<close> on a 32-bit unsigned.\<close>

definition rot :: "u32 \<Rightarrow> nat \<Rightarrow> u32" where
  "rot X S = (push_bit S X) OR (drop_bit (32 - S) X)"

text \<open>
  The macros \<^verbatim>\<open>ff\<close>, \<^verbatim>\<open>gg\<close>, \<^verbatim>\<open>hh\<close> assign to their first argument, so their
  first four arguments are the names of the local variables \<^verbatim>\<open>A\<close>, \<^verbatim>\<open>B\<close>, \<^verbatim>\<open>C\<close>,
  \<^verbatim>\<open>D\<close> of \<^verbatim>\<open>MDblock\<close>; \<open>X\<close> is the local array of 16 message words.
\<close>

datatype reg = A | B | C | D

text \<open>The values of the locals \<^verbatim>\<open>A\<close>, \<^verbatim>\<open>B\<close>, \<^verbatim>\<open>C\<close>, \<^verbatim>\<open>D\<close>, in this order.\<close>

type_synonym regs = "u32 \<times> u32 \<times> u32 \<times> u32"

fun rd :: "regs \<Rightarrow> reg \<Rightarrow> u32" where
  "rd (a, b, c, d) A = a"
| "rd (a, b, c, d) B = b"
| "rd (a, b, c, d) C = c"
| "rd (a, b, c, d) D = d"

fun wr :: "reg \<Rightarrow> u32 \<Rightarrow> regs \<Rightarrow> regs" where
  "wr A v (a, b, c, d) = (v, b, c, d)"
| "wr B v (a, b, c, d) = (a, v, c, d)"
| "wr C v (a, b, c, d) = (a, b, v, d)"
| "wr D v (a, b, c, d) = (a, b, c, v)"

definition ff :: "reg \<Rightarrow> reg \<Rightarrow> reg \<Rightarrow> reg \<Rightarrow> nat \<Rightarrow> nat \<Rightarrow> u32 list \<Rightarrow> regs \<Rightarrow> regs" where
  "ff a b c d i s X r = wr a (rot (rd r a + f (rd r b) (rd r c) (rd r d) + X ! i) s) r"

definition gg :: "reg \<Rightarrow> reg \<Rightarrow> reg \<Rightarrow> reg \<Rightarrow> nat \<Rightarrow> nat \<Rightarrow> u32 list \<Rightarrow> regs \<Rightarrow> regs" where
  "gg a b c d i s X r = wr a (rot (rd r a + g (rd r b) (rd r c) (rd r d) + X ! i + C2) s) r"

definition hh :: "reg \<Rightarrow> reg \<Rightarrow> reg \<Rightarrow> reg \<Rightarrow> nat \<Rightarrow> nat \<Rightarrow> u32 list \<Rightarrow> regs \<Rightarrow> regs" where
  "hh a b c d i s X r = wr a (rot (rd r a + h (rd r b) (rd r c) (rd r d) + X ! i + C3) s) r"

section \<open>MD4Init\<close>

text \<open>The context as \<^verbatim>\<open>calloc(1, sizeof(MD4_CTX))\<close> returns it.\<close>

definition calloc_MD4_CTX :: MD4_CTX where
  "calloc_MD4_CTX = \<lparr>buffer = replicate 4 0, count = replicate 8 0, done = 0\<rparr>"

definition MD4Init :: "MD4_CTX \<Rightarrow> MD4_CTX" where
  "MD4Init MDp =
     MDp\<lparr>buffer := (buffer MDp)[0 := I0, 1 := I1, 2 := I2, 3 := I3],
         count := fold (\<lambda>i c. c[i := 0]) [0..<8] (count MDp),
         done := 0\<rparr>"

section \<open>MDblock\<close>

text \<open>
  \<^verbatim>\<open>X[i] = Xb[0] + (Xb[1] << 8) + (Xb[2] << 16) + (Xb[3] << 24); Xb += 4;\<close>
  The sum is taken modulo \<open>2^32\<close> (the value every two's-complement compiler gives it).
\<close>

definition load_X :: "mem \<Rightarrow> u32 list" where
  "load_X Xb = map (\<lambda>i. ucast (Xb (4 * i)) + push_bit 8 (ucast (Xb (4 * i + 1)))
                        + push_bit 16 (ucast (Xb (4 * i + 2))) + push_bit 24 (ucast (Xb (4 * i + 3))))
                   [0..<16]"

text \<open>The 48 macro calls of \<^verbatim>\<open>MDblock\<close>, in source order.\<close>

definition MDblock_steps :: "(u32 list \<Rightarrow> regs \<Rightarrow> regs) list" where
  "MDblock_steps =
   [ff A B C D 0 fs1,
    ff D A B C 1 fs2,
    ff C D A B 2 fs3,
    ff B C D A 3 fs4,
    ff A B C D 4 fs1,
    ff D A B C 5 fs2,
    ff C D A B 6 fs3,
    ff B C D A 7 fs4,
    ff A B C D 8 fs1,
    ff D A B C 9 fs2,
    ff C D A B 10 fs3,
    ff B C D A 11 fs4,
    ff A B C D 12 fs1,
    ff D A B C 13 fs2,
    ff C D A B 14 fs3,
    ff B C D A 15 fs4,
    gg A B C D 0 gs1,
    gg D A B C 4 gs2,
    gg C D A B 8 gs3,
    gg B C D A 12 gs4,
    gg A B C D 1 gs1,
    gg D A B C 5 gs2,
    gg C D A B 9 gs3,
    gg B C D A 13 gs4,
    gg A B C D 2 gs1,
    gg D A B C 6 gs2,
    gg C D A B 10 gs3,
    gg B C D A 14 gs4,
    gg A B C D 3 gs1,
    gg D A B C 7 gs2,
    gg C D A B 11 gs3,
    gg B C D A 15 gs4,
    hh A B C D 0 hs1,
    hh D A B C 8 hs2,
    hh C D A B 4 hs3,
    hh B C D A 12 hs4,
    hh A B C D 2 hs1,
    hh D A B C 10 hs2,
    hh C D A B 6 hs3,
    hh B C D A 14 hs4,
    hh A B C D 1 hs1,
    hh D A B C 9 hs2,
    hh C D A B 5 hs3,
    hh B C D A 13 hs4,
    hh A B C D 3 hs1,
    hh D A B C 11 hs2,
    hh C D A B 7 hs3,
    hh B C D A 15 hs4]"

text \<open>\<^verbatim>\<open>A = MDp->buffer[0]; B = MDp->buffer[1]; C = MDp->buffer[2]; D = MDp->buffer[3];\<close>\<close>

definition init_regs :: "MD4_CTX \<Rightarrow> regs" where
  "init_regs MDp = (buffer MDp ! 0, buffer MDp ! 1, buffer MDp ! 2, buffer MDp ! 3)"

definition MDblock :: "MD4_CTX \<Rightarrow> mem \<Rightarrow> MD4_CTX" where
  "MDblock MDp Xb =
     (let X = load_X Xb;
          r = fold (\<lambda>stmt r. stmt X r) MDblock_steps (init_regs MDp)
      in MDp\<lparr>buffer := (buffer MDp)[0 := buffer MDp ! 0 + rd r A,
                                      1 := buffer MDp ! 1 + rd r B,
                                      2 := buffer MDp ! 2 + rd r C,
                                      3 := buffer MDp ! 3 + rd r D]\<rparr>)"

section \<open>MD4Update\<close>

text \<open>
  \<^verbatim>\<open>tmp = count; p = MDp->count; while (tmp) { tmp += *p; *p++ = tmp; tmp = tmp >> 8; }\<close>
  The loop has no bound on \<^verbatim>\<open>p\<close>: with a carry out of \<^verbatim>\<open>count[7]\<close> it writes behind
  the array, which is the fault \<open>None\<close> here.
\<close>

function add_count :: "u32 \<Rightarrow> nat \<Rightarrow> byte list \<Rightarrow> byte list option" where
  "add_count tmp p cnt =
     (if tmp = 0 then Some cnt
      else if 8 \<le> p then None
      else (let tmp' = tmp + ucast (cnt ! p)
            in add_count (drop_bit 8 tmp') (Suc p) (cnt[p := ucast tmp'])))"
  by pat_completeness auto
termination
  by (relation "measure (\<lambda>(tmp, p, cnt). 8 - p)") auto

declare add_count.simps [simp del]

text \<open>
  \<^verbatim>\<open>if (count) for (i=0;i<=byte;i++) XX[i] = X[i];\<close>
  The loop reads \<open>byte + 1\<close> bytes.  For a bit count that is a multiple of 8 this is
  one byte more than the data; the padding overwrites what was read there.
\<close>

definition copy_X :: "ptr \<Rightarrow> u32 \<Rightarrow> nat \<Rightarrow> mem \<Rightarrow> fault + mem" where
  "copy_X X n byte XX =
     (if n \<noteq> 0 then
        (case X of None \<Rightarrow> Inl NullDeref
                 | Some x \<Rightarrow> Inr (fold (\<lambda>i xx. xx(i := x i)) [0..<Suc byte] XX))
      else Inr XX)"

text \<open>
  \<^verbatim>\<open>for (i=byte+1;i<64;i++) XX[i] = 0; mask = 1 << (7 - bit);\<close>
  \<^verbatim>\<open>XX[byte] = (XX[byte] | mask) & ~( mask - 1);\<close>
\<close>

definition pad_XX :: "nat \<Rightarrow> nat \<Rightarrow> mem \<Rightarrow> mem" where
  "pad_XX byte rbit XX =
     (let XX = fold (\<lambda>i xx. xx(i := 0)) [Suc byte..<64] XX;
          mask = (push_bit (7 - rbit) 1 :: u32)
      in XX(byte := ucast ((ucast (XX byte) OR mask) AND NOT (mask - 1))))"

text \<open>\<^verbatim>\<open>for (i=0;i<8;i++) XX[56+i] = MDp->count[i];\<close>\<close>

definition put_count :: "MD4_CTX \<Rightarrow> mem \<Rightarrow> mem" where
  "put_count MDp XX = fold (\<lambda>i xx. xx(56 + i := count MDp ! i)) [0..<8] XX"

text \<open>
  \<open>XX0\<close> is the content of the uninitialised local array \<^verbatim>\<open>XX\<close> at entry.  The
  result is the updated context and what the call printed, or a fault.  The parameter
  \<^verbatim>\<open>count\<close> is \<open>n\<close> here and the local \<^verbatim>\<open>bit\<close> is \<open>rbit\<close>, since \<open>count\<close> is the
  field of the context and \<open>bit\<close> a constant of the library.
\<close>

definition MD4Update :: "MD4_CTX \<Rightarrow> ptr \<Rightarrow> u32 \<Rightarrow> mem \<Rightarrow> fault + (MD4_CTX \<times> diag list)" where
  "MD4Update MDp X n XX0 =
     (if n = 0 \<and> done MDp \<noteq> 0 then Inr (MDp, [])
      else if done MDp \<noteq> 0 then Inr (MDp, [AlreadyDone])
      else
        (case add_count n 0 (count MDp) of
           None \<Rightarrow> Inl CountOverrun
         | Some c \<Rightarrow>
            (let MDp = MDp\<lparr>count := c\<rparr> in
             if n = 512 then
               (case X of None \<Rightarrow> Inl NullDeref | Some x \<Rightarrow> Inr (MDblock MDp x, []))
             else if n > 512 then Inr (MDp, [IllegalCount n])
             else
               (let byte = unat (drop_bit 3 n);
                    rbit = unat (n AND 7)
                in case copy_X X n byte XX0 of
                     Inl e \<Rightarrow> Inl e
                   | Inr XX \<Rightarrow>
                      (let XX = pad_XX byte rbit XX in
                       if byte \<le> 55 then
                         (let XX = put_count MDp XX;
                              MDp = MDblock MDp XX
                          in Inr (MDp\<lparr>done := 1\<rparr>, []))
                       else
                         (let MDp = MDblock MDp XX;
                              XX = fold (\<lambda>i xx. xx(i := 0)) [0..<56] XX;
                              XX = put_count MDp XX;
                              MDp = MDblock MDp XX
                          in Inr (MDp\<lparr>done := 1\<rparr>, [])))))))"

section \<open>MD4Final and MD4Print\<close>

text \<open>\<^verbatim>\<open>for (j = 0; j < 4; ++j) { *buf++ = w; w >>= 8; }\<close>\<close>

primrec emit_word :: "nat \<Rightarrow> u32 \<Rightarrow> byte list" where
  "emit_word 0 w = []"
| "emit_word (Suc j) w = ucast w # emit_word j (drop_bit 8 w)"

definition MD4Final :: "MD4_CTX \<Rightarrow> mem \<Rightarrow> fault + (byte list \<times> MD4_CTX \<times> diag list)" where
  "MD4Final MD XX0 =
     (case MD4Update MD None 0 XX0 of
        Inl e \<Rightarrow> Inl e
      | Inr (MD', out) \<Rightarrow>
          Inr (concat (map (\<lambda>i. emit_word 4 (buffer MD' ! i)) [0..<4]), MD', out))"

text \<open>\<^verbatim>\<open>printf("%02x", v)\<close> for \<open>v < 256\<close>: two lowercase hexadecimal digits.\<close>

definition hex_digit :: "nat \<Rightarrow> char" where
  "hex_digit d = ''0123456789abcdef'' ! d"

definition printf_02x :: "u32 \<Rightarrow> string" where
  "printf_02x v = [hex_digit (unat v div 16), hex_digit (unat v mod 16)]"

definition MD4Print :: "MD4_CTX \<Rightarrow> string" where
  "MD4Print MDp =
     concat (map (\<lambda>i. concat (map (\<lambda>j. printf_02x (drop_bit j (buffer MDp ! i) AND 0xFF))
                                   [0, 8, 16, 24]))
                 [0..<4])"

section \<open>The adapter: md4_init, md4_update, md4_final\<close>

text \<open>
  Modelled from the spec: \<^verbatim>\<open>PPP_MD_CTX\<close> is declared in \<^verbatim>\<open>crypto-priv.h\<close>, which is
  not part of the sources at hand.  The code uses only its field \<^verbatim>\<open>priv\<close>, the pointer to
  the context the adapter allocated (\<open>None\<close> is NULL).
\<close>

record PPP_MD_CTX =
  priv :: "MD4_CTX option"

text \<open>
  \<open>ctx\<close> is the pointer passed by the caller, \<open>calloc_ok\<close> tells whether \<^verbatim>\<open>calloc\<close>
  returned memory.  The result is the return value and the caller's object.
\<close>

definition md4_init :: "PPP_MD_CTX option \<Rightarrow> bool \<Rightarrow> int \<times> PPP_MD_CTX option" where
  "md4_init ctx calloc_ok =
     (case ctx of
        Some c \<Rightarrow>
          if calloc_ok then (1, Some (c\<lparr>priv := Some (MD4Init calloc_MD4_CTX)\<rparr>))
          else (0, ctx)
      | None \<Rightarrow> (0, ctx))"

text \<open>\<^verbatim>\<open>data += 64\<close>\<close>

definition ptr_add :: "ptr \<Rightarrow> nat \<Rightarrow> ptr" where
  "ptr_add p k = map_option (\<lambda>m i. m (i + k)) p"

text \<open>
  \<^verbatim>\<open>while (mdlen > 512) { MD4Update(.., data, 512); data += 64; mdlen -= 512; }\<close>
  \<^verbatim>\<open>MD4Update(.., data, mdlen);\<close>
  \<^verbatim>\<open>mdlen\<close> is a 32-bit \<^verbatim>\<open>int\<close>: the comparison is signed, and the last call converts it
  to \<^verbatim>\<open>unsigned int\<close>.
\<close>

function md4_update_loop :: "MD4_CTX \<Rightarrow> ptr \<Rightarrow> u32 \<Rightarrow> mem \<Rightarrow> fault + (MD4_CTX \<times> diag list)" where
  "md4_update_loop MDp data mdlen XX0 =
     (if 512 <s mdlen then
        (case MD4Update MDp data 512 XX0 of
           Inl e \<Rightarrow> Inl e
         | Inr (MDp', out) \<Rightarrow>
             (case md4_update_loop MDp' (ptr_add data 64) (mdlen - 512) XX0 of
                Inl e \<Rightarrow> Inl e
              | Inr (MDp'', out') \<Rightarrow> Inr (MDp'', out @ out')))
      else MD4Update MDp data mdlen XX0)"
  by pat_completeness auto
termination
  apply (relation "measure (\<lambda>(MDp, data, mdlen, XX0). nat (sint mdlen))")
   apply simp
  subgoal for MDp data mdlen
    using sint_lt [of mdlen]
    by (simp add: word_sless_alt sint_word_ariths signed_take_bit_int_eq_self)
  done

declare md4_update_loop.simps [simp del]

text \<open>
  \<^verbatim>\<open>int mdlen = len * 8;\<close> with a 64-bit \<^verbatim>\<open>size_t\<close>: the product wraps at \<open>2^64\<close> and the
  conversion to \<^verbatim>\<open>int\<close> keeps the low 32 bits.  The function returns 1 on every path.
\<close>

definition md4_update :: "PPP_MD_CTX \<Rightarrow> ptr \<Rightarrow> 64 word \<Rightarrow> mem \<Rightarrow> fault + (int \<times> PPP_MD_CTX \<times> diag list)" where
  "md4_update ctx data len XX0 =
     (case priv ctx of
        None \<Rightarrow> Inl NullDeref
      | Some MDp \<Rightarrow>
          (case md4_update_loop MDp data (ucast (len * 8)) XX0 of
             Inl e \<Rightarrow> Inl e
           | Inr (MDp', out) \<Rightarrow> Inr (1, ctx\<lparr>priv := Some MDp'\<rparr>, out)))"

text \<open>
  The result is the return value, the 16 bytes written to \<^verbatim>\<open>out\<close>, the context and
  stdout.  The function does not write to \<^verbatim>\<open>*len\<close>.
\<close>

definition md4_final :: "PPP_MD_CTX \<Rightarrow> mem \<Rightarrow> fault + (int \<times> byte list \<times> PPP_MD_CTX \<times> diag list)" where
  "md4_final ctx XX0 =
     (case priv ctx of
        None \<Rightarrow> Inl NullDeref
      | Some MD \<Rightarrow>
          (case MD4Final MD XX0 of
             Inl e \<Rightarrow> Inl e
           | Inr (buf, MD', out) \<Rightarrow> Inr (1, buf, ctx\<lparr>priv := Some MD'\<rparr>, out)))"

section \<open>Callers of the adapter\<close>

text \<open>
  The control flow of a caller: create a context, feed the buffers of \<open>feeds\<close> in order
  (each with its pointer, its length in bytes and the content of the scratch array at that
  call), finish once.  The result is the 16 digest bytes and everything printed.
\<close>

fun md4_feeds :: "PPP_MD_CTX \<Rightarrow> (ptr \<times> 64 word \<times> mem) list \<Rightarrow> fault + (PPP_MD_CTX \<times> diag list)" where
  "md4_feeds ctx [] = Inr (ctx, [])"
| "md4_feeds ctx ((data, len, XX0) # rest) =
     (case md4_update ctx data len XX0 of
        Inl e \<Rightarrow> Inl e
      | Inr (r, ctx', out) \<Rightarrow>
          (case md4_feeds ctx' rest of
             Inl e \<Rightarrow> Inl e
           | Inr (ctx'', out') \<Rightarrow> Inr (ctx'', out @ out')))"

definition md4_run :: "(ptr \<times> 64 word \<times> mem) list \<Rightarrow> mem \<Rightarrow> fault + (byte list \<times> diag list)" where
  "md4_run feeds XX1 =
     (case md4_init (Some \<lparr>priv = None\<rparr>) True of
        (r, None) \<Rightarrow> Inl NullDeref
      | (r, Some ctx) \<Rightarrow>
          (case md4_feeds ctx feeds of
             Inl e \<Rightarrow> Inl e
           | Inr (ctx', out) \<Rightarrow>
               (case md4_final ctx' XX1 of
                  Inl e \<Rightarrow> Inl e
                | Inr (r', buf, ctx'', out') \<Rightarrow> Inr (buf, out @ out'))))"

text \<open>
  A pointer to a buffer holding the bytes \<open>M\<close>; \<open>rest\<close> is whatever lies in memory from
  the pointer on where the buffer has ended.
\<close>

definition buf_ptr :: "byte list \<Rightarrow> mem \<Rightarrow> ptr" where
  "buf_ptr M rest = Some (\<lambda>i. if i < length M then M ! i else rest i)"

text \<open>The bytes of an ASCII string.\<close>

definition bytes_of :: "string \<Rightarrow> byte list" where
  "bytes_of s = map (\<lambda>c. of_char c) s"

text \<open>Lowercase hexadecimal rendering of bytes, most significant nibble first.\<close>

definition hex_of :: "byte list \<Rightarrow> string" where
  "hex_of bs = concat (map (\<lambda>b. printf_02x (ucast b)) bs)"


text \<open>Sequencing of two steps: a fault ends the run, the printed lines are joined.\<close>

definition then_do :: "fault + ('a \<times> diag list) \<Rightarrow> ('a \<Rightarrow> fault + ('b \<times> diag list)) \<Rightarrow> fault + ('b \<times> diag list)" where
  "then_do r k =
     (case r of
        Inl e \<Rightarrow> Inl e
      | Inr (a, out) \<Rightarrow> (case k a of Inl e \<Rightarrow> Inl e | Inr (b, out') \<Rightarrow> Inr (b, out @ out')))"

text \<open>The effect of the adapter's feed and finish on the engine's context.\<close>

definition feed_ctx :: "MD4_CTX \<Rightarrow> ptr \<times> 64 word \<times> mem \<Rightarrow> fault + (MD4_CTX \<times> diag list)" where
  "feed_ctx MDp call = (case call of (data, len, XX0) \<Rightarrow> md4_update_loop MDp data (ucast (len * 8)) XX0)"

fun feeds_ctx :: "MD4_CTX \<Rightarrow> (ptr \<times> 64 word \<times> mem) list \<Rightarrow> fault + (MD4_CTX \<times> diag list)" where
  "feeds_ctx MDp [] = Inr (MDp, [])"
| "feeds_ctx MDp (call # rest) = then_do (feed_ctx MDp call) (\<lambda>MDp'. feeds_ctx MDp' rest)"

definition finish_ctx :: "MD4_CTX \<Rightarrow> mem \<Rightarrow> fault + (byte list \<times> diag list)" where
  "finish_ctx MDp XX0 =
     (case MD4Final MDp XX0 of Inl e \<Rightarrow> Inl e | Inr (buf, MDp', out) \<Rightarrow> Inr (buf, out))"

section \<open>The specification's description, to compare the code with\<close>

subsection \<open>Block transform\<close>

text \<open>Four bytes, least significant first, as one 32-bit word.\<close>

definition spec_le32 :: "byte list \<Rightarrow> u32" where
  "spec_le32 bs = foldr (\<lambda>b acc. ucast b + 256 * acc) bs 0"

definition spec_words :: "byte list \<Rightarrow> u32 list" where
  "spec_words blk = map (\<lambda>i. spec_le32 (take 4 (drop (4 * i) blk))) [0..<16]"

definition spec_sel1 :: "u32 \<Rightarrow> u32 \<Rightarrow> u32 \<Rightarrow> u32" where
  "spec_sel1 x y z = (x AND y) OR (NOT x AND z)"

definition spec_sel2 :: "u32 \<Rightarrow> u32 \<Rightarrow> u32 \<Rightarrow> u32" where
  "spec_sel2 x y z = (x AND y) OR (x AND z) OR (y AND z)"

definition spec_sel3 :: "u32 \<Rightarrow> u32 \<Rightarrow> u32 \<Rightarrow> u32" where
  "spec_sel3 x y z = x XOR y XOR z"

text \<open>
  One step on the working variables: combine, rotate left, then rotate the variables
  (A,B,C,D becomes D,A,B,C).
\<close>

definition spec_step :: "(u32 \<Rightarrow> u32 \<Rightarrow> u32 \<Rightarrow> u32) \<Rightarrow> u32 \<Rightarrow> nat \<Rightarrow> u32 \<Rightarrow> regs \<Rightarrow> regs" where
  "spec_step sel k s w = (\<lambda>(a, b, c, d). (d, word_rotl s (a + sel b c d + w + k), b, c))"

text \<open>
  A round of 16 steps: step \<open>j\<close> takes message word \<open>order ! j\<close> and the rotate amount
  \<open>shifts ! (j mod 4)\<close>.
\<close>

definition spec_round :: "(u32 \<Rightarrow> u32 \<Rightarrow> u32 \<Rightarrow> u32) \<Rightarrow> u32 \<Rightarrow> nat list \<Rightarrow> nat list \<Rightarrow> u32 list \<Rightarrow> regs \<Rightarrow> regs" where
  "spec_round sel k shifts order ws st =
     fold (\<lambda>j. spec_step sel k (shifts ! (j mod 4)) (ws ! (order ! j))) [0..<16] st"

definition spec_block :: "u32 list \<Rightarrow> byte list \<Rightarrow> u32 list" where
  "spec_block st blk =
     (let ws = spec_words blk;
          v0 = (st ! 0, st ! 1, st ! 2, st ! 3);
          v1 = spec_round spec_sel1 0 [3, 7, 11, 19] [0..<16] ws v0;
          v2 = spec_round spec_sel2 (of_nat (octal [1,3,2,4,0,4,7,4,6,3,1])) [3, 5, 9, 13]
                 [0, 4, 8, 12, 1, 5, 9, 13, 2, 6, 10, 14, 3, 7, 11, 15] ws v1;
          v3 = spec_round spec_sel3 (of_nat (octal [1,5,6,6,6,3,6,5,6,4,1])) [3, 9, 11, 15]
                 [0, 8, 4, 12, 2, 10, 6, 14, 1, 9, 5, 13, 3, 11, 7, 15] ws v2
      in case v3 of (a, b, c, d) \<Rightarrow> [st ! 0 + a, st ! 1 + b, st ! 2 + c, st ! 3 + d])"

subsection \<open>Terminal feed\<close>

text \<open>
  The partial bytes, then the byte holding the boundary with the 1 bit set after the last
  valid bit and the lower bits cleared, then zeros: 64 bytes.
\<close>

definition spec_partial_block :: "mem \<Rightarrow> nat \<Rightarrow> byte list" where
  "spec_partial_block x nbits =
     map (\<lambda>i. if i < nbits div 8 then x i
               else if i = nbits div 8
                 then (x i OR push_bit (7 - nbits mod 8) 1) AND NOT (push_bit (7 - nbits mod 8) 1 - 1)
               else 0) [0..<64]"

definition spec_count_field :: "byte list \<Rightarrow> byte list" where
  "spec_count_field c = map (\<lambda>i. c ! i) [0..<8]"

definition spec_terminal :: "MD4_CTX \<Rightarrow> mem \<Rightarrow> nat \<Rightarrow> MD4_CTX" where
  "spec_terminal MDp x nbits =
     (let blk = spec_partial_block x nbits; cnt = spec_count_field (count MDp) in
      if nbits div 8 \<le> 55
      then (MDblock MDp ((!) (take 56 blk @ cnt)))\<lparr>done := 1\<rparr>
      else (MDblock (MDblock MDp ((!) blk)) ((!) (replicate 56 0 @ cnt)))\<lparr>done := 1\<rparr>)"

subsection \<open>Bit count and reference digest\<close>

text \<open>The count field read as a little-endian integer.\<close>

definition count_value :: "byte list \<Rightarrow> nat" where
  "count_value c = foldr (\<lambda>b acc. unat b + 256 * acc) c 0"

primrec spec_le_bytes :: "nat \<Rightarrow> nat \<Rightarrow> byte list" where
  "spec_le_bytes 0 v = []"
| "spec_le_bytes (Suc k) v = of_nat (v mod 256) # spec_le_bytes k (v div 256)"

text \<open>
  Padding of a whole message: a 1 bit, zero fill up to 56 modulo 64 bytes, and the length
  in bits as 64-bit little-endian field.
\<close>

definition spec_pad :: "byte list \<Rightarrow> byte list" where
  "spec_pad M = M @ [0x80] @ replicate ((119 - length M mod 64) mod 64) 0
                  @ spec_le_bytes 8 (8 * length M)"

definition spec_blocks :: "byte list \<Rightarrow> byte list list" where
  "spec_blocks bs = map (\<lambda>k. take 64 (drop (64 * k) bs)) [0..<length bs div 64]"

text \<open>The direct reference computation of the digest of a message.\<close>

definition spec_md4 :: "byte list \<Rightarrow> byte list" where
  "spec_md4 M =
     concat (map (\<lambda>w. spec_le_bytes 4 (unat w))
                 (fold (\<lambda>blk st. spec_block st blk) (spec_blocks (spec_pad M))
                       [0x67452301, 0xefcdab89, 0x98badcfe, 0x10325476]))"

section \<open>Lemmas about the scratch buffer and the terminal call\<close>

lemma fold_upd_range:
  "fold (\<lambda>i xx. xx(k + i := gfun i)) [a..<b] (XX :: nat \<Rightarrow> 'a) j =
     (if k + a \<le> j \<and> j < k + b then gfun (j - k) else XX j)"
proof (induction b)
  case 0
  then show ?case by auto
next
  case (Suc b)
  show ?case
  proof (cases "a \<le> b")
    case True
    then show ?thesis using Suc by (auto simp: upt_Suc_append)
  next
    case False
    then show ?thesis by auto
  qed
qed

lemma fold_upd_range0:
  "fold (\<lambda>i xx. xx(i := gfun i)) [a..<b] (XX :: nat \<Rightarrow> 'a) j =
     (if a \<le> j \<and> j < b then gfun j else XX j)"
  using fold_upd_range [of 0 gfun a b XX j] by simp

lemma put_count_apply:
  "put_count MDp XX j = (if 56 \<le> j \<and> j < 64 then count MDp ! (j - 56) else XX j)"
  unfolding put_count_def using fold_upd_range [of 56 "\<lambda>i. count MDp ! i" 0 8 XX j] by simp

lemma add_count_zero [simp]: "add_count 0 p c = Some c"
  by (simp add: add_count.simps)

lemma MD4Update_done:
  "done MDp \<noteq> 0 \<Longrightarrow> MD4Update MDp X n XX0 = Inr (MDp, if n = 0 then [] else [AlreadyDone])"
  by (simp add: MD4Update_def)

lemma load_X_cong:
  assumes "\<And>i. i < 64 \<Longrightarrow> Xb i = Xb' i"
  shows "load_X Xb = load_X Xb'"
  unfolding load_X_def by (rule map_cong) (auto simp: assms)

lemma MDblock_cong:
  assumes "\<And>i. i < 64 \<Longrightarrow> Xb i = Xb' i"
  shows "MDblock MDp Xb = MDblock MDp Xb'"
  unfolding MDblock_def using load_X_cong [of Xb Xb', OF assms] by simp

lemma MDblock_count [simp]: "count (MDblock MDp Xb) = count MDp"
  by (simp add: MDblock_def Let_def)

lemma MDblock_done [simp]: "done (MDblock MDp Xb) = done MDp"
  by (simp add: MDblock_def Let_def)

lemma unat_shr3: "unat (drop_bit 3 (n::u32)) = unat n div 8"
  by (simp add: unat_drop_bit_eq drop_bit_eq_div unat_div)

lemma unat_and7: "unat ((n::u32) AND 7) = unat n mod 8"
proof -
  have "n AND 7 = take_bit 3 n"
    using take_bit_eq_mask [of 3 n] by (simp add: mask_eq_exp_minus_1)
  moreover have "unat (take_bit 3 n) = take_bit 3 (unat n)"
    by (rule unsigned_take_bit_eq)
  ultimately show ?thesis
    by (simp only: take_bit_eq_mod) simp
qed

lemma pad_byte_aux:
  "k \<le> 7 \<Longrightarrow> (ucast ((ucast (b::byte) OR (push_bit k 1 :: u32)) AND NOT (push_bit k 1 - 1)) :: byte)
     = (b OR push_bit k 1) AND NOT (push_bit k 1 - 1)"
  by (rule bit_word_eqI) (auto simp add: bit_simps simp flip: mask_eq_exp_minus_1)

lemma pad_byte:
  "k \<le> 7 \<Longrightarrow> (ucast ((ucast (b::byte) OR (2 ^ k :: u32)) AND NOT (2 ^ k - 1)) :: byte)
     = (b OR 2 ^ k) AND NOT (2 ^ k - 1)"
  using pad_byte_aux [of k b] by simp

lemma pad_top_aux:
  "Suc k = LENGTH('a::len) \<Longrightarrow> ((b::'a word) OR push_bit k 1) AND NOT (mask k) = push_bit k 1"
  by (rule bit_word_eqI) (auto simp add: bit_simps)

lemma pad_byte0: "((b::byte) OR 128) AND - 128 = 128"
  using pad_top_aux [of 7 b] by (simp add: mask_eq_exp_minus_1)

text \<open>The scratch buffer after copying and padding, on its 64 bytes.\<close>

lemma pad_XX_apply:
  assumes "byte < 64" "rbit \<le> 7" "j < 64"
  shows "pad_XX byte rbit XX j =
     (if j < byte then XX j
      else if j = byte then (XX byte OR push_bit (7 - rbit) 1) AND NOT (push_bit (7 - rbit) 1 - 1)
      else 0)"
  using assms by (simp add: pad_XX_def Let_def fold_upd_range0 pad_byte)

lemma copy_X_Some:
  "copy_X (Some x) n byte XX = Inr (if n = 0 then XX else (\<lambda>j. if j \<le> byte then x j else XX j))"
  by (auto simp: copy_X_def fold_upd_range0)

lemma copy_X_zero: "copy_X X 0 byte XX = Inr XX"
  by (simp add: copy_X_def)

lemma padded_eq_spec:
  assumes "nbits < 512" "j < 64" "nbits \<noteq> 0"
  shows "pad_XX (nbits div 8) (nbits mod 8) (\<lambda>j. if j \<le> nbits div 8 then x j else XX j) j
         = spec_partial_block x nbits ! j"
  using assms by (simp add: pad_XX_apply spec_partial_block_def)

lemma padded_eq_spec0:
  assumes "j < 64"
  shows "pad_XX 0 0 XX j = spec_partial_block x 0 ! j"
  using assms by (simp add: pad_XX_apply spec_partial_block_def pad_byte0)


lemma spec_count_field_nth: "i < 8 \<Longrightarrow> spec_count_field c ! i = c ! i"
  by (simp add: spec_count_field_def)

lemma length_spec_partial_block [simp]: "length (spec_partial_block x nbits) = 64"
  by (simp add: spec_partial_block_def)

lemma first_block_eq:
  assumes "\<And>j. j < 64 \<Longrightarrow> XX j = blk ! j" "length blk = 64"
  shows "MDblock MDp (put_count MDp XX) = MDblock MDp ((!) (take 56 blk @ spec_count_field (count MDp)))"
proof (rule MDblock_cong)
  fix i :: nat assume "i < 64"
  then show "put_count MDp XX i = (take 56 blk @ spec_count_field (count MDp)) ! i"
    using assms by (auto simp: put_count_apply nth_append spec_count_field_nth)
qed

lemma second_block_eq:
  "MDblock MDp (put_count MDp (fold (\<lambda>i xx. xx(i := 0)) [0..<56] XX))
     = MDblock MDp ((!) (replicate 56 0 @ spec_count_field (count MDp)))"
proof (rule MDblock_cong)
  fix i :: nat assume "i < 64"
  then show "put_count MDp (fold (\<lambda>i xx. xx(i := 0)) [0..<56] XX) i
       = (replicate 56 0 @ spec_count_field (count MDp)) ! i"
    by (auto simp: put_count_apply nth_append spec_count_field_nth fold_upd_range0)
qed

lemma MD4Update_partial:
  assumes "done MDp = 0" "n < 512" "add_count n 0 (count MDp) = Some c" "n = 0 \<or> X = Some x"
  shows "MD4Update MDp X n XX0 = Inr (spec_terminal (MDp\<lparr>count := c\<rparr>) x (unat n), [])"
proof -
  let ?M = "MDp\<lparr>count := c\<rparr>"
  let ?nb = "unat n"
  have nb: "?nb < 512" using assms(2) by (simp add: word_less_nat_alt)
  obtain XX1 where c1: "copy_X X n (?nb div 8) XX0 = Inr XX1"
    and p1: "\<And>j. j < 64 \<Longrightarrow> pad_XX (?nb div 8) (?nb mod 8) XX1 j = spec_partial_block x ?nb ! j"
  proof (cases "n = 0")
    case True
    show ?thesis
      by (rule that [of XX0]) (simp_all add: True copy_X_zero padded_eq_spec0)
  next
    case False
    then have X: "X = Some x" using assms(4) by simp
    have "?nb \<noteq> 0" using False by (simp add: unat_eq_0)
    then show ?thesis
      using nb False
      by (intro that [of "\<lambda>j. if j \<le> ?nb div 8 then x j else XX0 j"])
         (simp_all add: X copy_X_Some padded_eq_spec)
  qed
  have b1: "MDblock ?M (put_count ?M (pad_XX (?nb div 8) (?nb mod 8) XX1))
      = MDblock ?M ((!) (take 56 (spec_partial_block x ?nb) @ spec_count_field c))"
    using first_block_eq [of "pad_XX (?nb div 8) (?nb mod 8) XX1" "spec_partial_block x ?nb" ?M] p1
    by simp
  have b2: "MDblock ?M (pad_XX (?nb div 8) (?nb mod 8) XX1) = MDblock ?M ((!) (spec_partial_block x ?nb))"
    by (rule MDblock_cong) (simp add: p1)
  have b3: "\<And>M XX. count M = c \<Longrightarrow> MDblock M (put_count M (fold (\<lambda>i xx. xx(i := 0)) [0..<56] XX))
     = MDblock M ((!) (replicate 56 0 @ spec_count_field c))"
    using second_block_eq by metis
  have n512: "n \<noteq> 512" "\<not> n > 512" using assms(2) by auto
  show ?thesis
    using assms(1,3) n512
    by (simp add: MD4Update_def Let_def unat_shr3 unat_and7 c1 b1 b2 b3 spec_terminal_def)
qed

section \<open>Evaluation of concrete blocks\<close>

lemma upt16: "[0..<16] = [0,1,2,3,4,5,6,7,8,9,10,11,12,13,14,15]"
  by (simp add: upt_rec)

lemmas md4_eval = MDblock_steps_def ff_def gg_def hh_def f_def g_def h_def rot_def C2_def C3_def octal_def
     fs1_def fs2_def fs3_def fs4_def gs1_def gs2_def gs3_def gs4_def hs1_def hs2_def hs3_def hs4_def

lemma MDblock_eval:
  assumes "load_X Xb = X" "buffer MDp = [s0, s1, s2, s3]"
    and "fold (\<lambda>stmt. stmt X) MDblock_steps (s0, s1, s2, s3) = (a, b, c, d)"
  shows "MDblock MDp Xb = MDp\<lparr>buffer := [s0 + a, s1 + b, s2 + c, s3 + d]\<rparr>"
  using assms by (simp add: MDblock_def init_regs_def)

lemma replicate_update_same: "(replicate n x)[i := x] = replicate n x"
  by (induction n arbitrary: i) (auto split: nat.splits)

lemma fold_zero_replicate: "fold (\<lambda>i c. c[i := 0]) js (replicate n 0) = replicate n 0"
  by (induction js) (simp_all add: replicate_update_same)

lemma MD4Init_calloc:
  "MD4Init calloc_MD4_CTX = \<lparr>buffer = [I0, I1, I2, I3], count = replicate 8 0, done = 0\<rparr>"
proof -
  have "(replicate 4 (0::u32))[0 := I0, 1 := I1, 2 := I2, 3 := I3] = [I0, I1, I2, I3]"
    by (simp add: numeral_eq_Suc)
  then show ?thesis
    by (simp add: MD4Init_def calloc_MD4_CTX_def fold_zero_replicate)
qed

lemma MD4Update_zero:
  assumes "done MDp = 0"
  shows "MD4Update MDp X 0 XX0 =
           Inr ((MDblock MDp ((!) (0x80 # replicate 55 0 @ spec_count_field (count MDp))))\<lparr>done := 1\<rparr>, [])"
proof -
  have blk: "take 56 (spec_partial_block x 0) = 0x80 # replicate 55 0" for x
    by (rule nth_equalityI) (auto simp: spec_partial_block_def nth_Cons' pad_byte0)
  have "MDp\<lparr>count := count MDp\<rparr> = MDp" by simp
  then show ?thesis
    using MD4Update_partial [of MDp 0 "count MDp" X undefined XX0] assms
    by (simp add: spec_terminal_def blk)
qed


lemma spec_count_field_id: "length c = 8 \<Longrightarrow> spec_count_field c = c"
  by (rule nth_equalityI) (simp_all add: spec_count_field_def)

lemma load_X_empty_block:
  "load_X ((!) (0x80 # replicate 55 0 @ replicate 8 0)) = [0x80, 0, 0, 0, 0, 0, 0, 0, 0, 0, 0, 0, 0, 0, 0, 0]"
  by (simp add: load_X_def upt16 nth_append nth_Cons')

lemma steps_empty_block:
  "fold (\<lambda>stmt. stmt [0x80, 0, 0, 0, 0, 0, 0, 0, 0, 0, 0, 0, 0, 0, 0, 0]) MDblock_steps
        (0x67452301, 0xefcdab89, 0x98badcfe, 0x10325476)
     = (0x798AB330, 0x421BBF48, 0x3E9E5FB9, 0xB0576C6A)"
  by (simp add: md4_eval)

lemma MD4Update_empty:
  "MD4Update (MD4Init calloc_MD4_CTX) X 0 XX0 =
     Inr (\<lparr>buffer = [0xe0cfd631, 0x31e96ad1, 0xd7593cb7, 0xc089c0e0], count = replicate 8 0, done = 1\<rparr>, [])"
proof -
  let ?M = "\<lparr>buffer = [I0, I1, I2, I3], count = replicate 8 0, done = 0\<rparr>"
  have "MDblock ?M ((!) (0x80 # replicate 55 0 @ replicate 8 0))
      = ?M\<lparr>buffer := [0x67452301 + 0x798AB330, 0xefcdab89 + 0x421BBF48,
                         0x98badcfe + 0x3E9E5FB9, 0x10325476 + 0xB0576C6A]\<rparr>"
    by (rule MDblock_eval [OF load_X_empty_block _ steps_empty_block])
       (simp add: I0_def I1_def I2_def I3_def)
  then show ?thesis
    by (simp add: MD4Init_calloc MD4Update_zero spec_count_field_id)
qed

lemma upt4: "[0..<4] = [0,1,2,3]"
  by (simp add: upt_rec)

lemma emit_word4:
  "emit_word 4 w = [ucast w, ucast (drop_bit 8 w), ucast (drop_bit 16 w), ucast (drop_bit 24 w)]"
proof -
  have "emit_word (Suc (Suc (Suc (Suc 0)))) w
      = [ucast w, ucast (drop_bit 8 w), ucast (drop_bit 16 w), ucast (drop_bit 24 w)]"
    by (simp add: drop_bit_drop_bit)
  then show ?thesis by (simp add: numeral_eq_Suc)
qed

text \<open>\<^verbatim>\<open>MD4Print\<close> prints the bytes that \<^verbatim>\<open>MD4Final\<close> writes.\<close>

lemma low_byte: "(w::u32) AND 0xFF = ucast (ucast w :: byte)"
proof -
  have "(w::u32) AND mask 8 = ucast (ucast w :: byte)"
    by (rule bit_word_eqI) (auto simp: bit_simps)
  then show ?thesis by (simp add: mask_eq_exp_minus_1)
qed

lemma MD4Print_hex:
  "MD4Print MDp = hex_of (concat (map (\<lambda>i. emit_word 4 (buffer MDp ! i)) [0..<4]))"
  by (simp add: MD4Print_def hex_of_def upt4 emit_word4 low_byte)

lemma MD4Final_done:
  "done MD \<noteq> 0 \<Longrightarrow>
     MD4Final MD XX0 = Inr (concat (map (\<lambda>i. emit_word 4 (buffer MD ! i)) [0..<4]), MD, [])"
  by (simp add: MD4Final_def MD4Update_done)

lemma md4_update_loop_done:
  "done MDp \<noteq> 0 \<Longrightarrow> \<exists>out. md4_update_loop MDp data mdlen XX0 = Inr (MDp, out) \<and> set out \<subseteq> {AlreadyDone}"
proof (induction MDp data mdlen XX0 rule: md4_update_loop.induct)
  case (1 MDp data mdlen XX0)
  show ?case
  proof (cases "512 <s mdlen")
    case True
    have u: "MD4Update MDp data 512 XX0 = Inr (MDp, [AlreadyDone])"
      using "1.prems" by (simp add: MD4Update_done)
    from "1.IH" [OF True u refl] "1.prems"
    obtain out where "md4_update_loop MDp (ptr_add data 64) (mdlen - 512) XX0 = Inr (MDp, out)"
      "set out \<subseteq> {AlreadyDone}" by auto
    then show ?thesis
      using True u by (subst md4_update_loop.simps) simp
  next
    case False
    then show ?thesis
      using "1.prems" by (subst md4_update_loop.simps) (simp add: MD4Update_done)
  qed
qed

lemma MD4Update_zero_done: "\<exists>MD'. MD4Update MD X 0 XX0 = Inr (MD', []) \<and> done MD' \<noteq> 0"
proof (cases "done MD = 0")
  case True
  then show ?thesis by (simp add: MD4Update_zero)
next
  case False
  then show ?thesis by (simp add: MD4Update_done)
qed

lemma ucast_byte_mod: "(ucast (w::u32) :: byte) = of_nat (unat w mod 256)"
proof -
  have "(of_nat (unat w mod 256) :: byte) = of_nat (unat w)"
    unfolding word_of_nat_eq_iff by (simp add: take_bit_eq_mod)
  also have "\<dots> = ucast w" by simp
  finally show ?thesis by simp
qed

lemma unat_shr8: "unat (drop_bit 8 (w::u32)) = unat w div 256"
  by (simp add: unat_drop_bit_eq drop_bit_eq_div unat_div)

lemma emit_word_spec: "emit_word k w = spec_le_bytes k (unat w)"
proof (induction k arbitrary: w)
  case 0
  then show ?case by simp
next
  case (Suc k)
  show ?case by (simp add: Suc ucast_byte_mod unat_shr8)
qed

lemma sless_small:
  assumes "unat m \<le> 512"
  shows "\<not> 512 <s (m::u32)"
proof -
  have "int (unat m) \<le> 512" using assms by linarith
  then have le: "uint m \<le> 512" by (simp only: uint_nat)
  have "(0::int) \<le> 2 ^ 31" by simp
  then have ge: "- (2 ^ 31) \<le> uint m" using uint_ge_0 [of m] by linarith
  have "(512::int) < 2 ^ 31" by simp
  then have lt: "uint m < 2 ^ 31" using le by linarith
  have "signed_take_bit 31 (uint m) = uint m"
    using ge lt by (rule signed_take_bit_int_eq_self)
  then have "sint m = uint m"
    by (simp add: sint_uint)
  then show ?thesis using le by (simp add: word_sless_alt)
qed


lemma length_emit_word [simp]: "length (emit_word k w) = k"
  by (induction k arbitrary: w) simp_all

lemma replicate8: "replicate 8 x = [x, x, x, x, x, x, x, x]"
  by (simp add: numeral_eq_Suc)

lemma length_spec_count_field [simp]: "length (spec_count_field c) = 8"
  by (simp add: spec_count_field_def)

lemma md4_update_loop_small:
  "unat m \<le> 512 \<Longrightarrow> md4_update_loop MDp data m XX0 = MD4Update MDp data m XX0"
  by (subst md4_update_loop.simps) (simp add: sless_small)

lemma md4_update_loop_negative:
  "n <s 0 \<Longrightarrow> md4_update_loop MDp data n XX0 = MD4Update MDp data n XX0"
  by (subst md4_update_loop.simps) (simp add: word_sless_alt)

lemma zero_bit_block:
  "map (put_count MDp (pad_XX 0 0 XX0)) [0..<64] = 0x80 # replicate 55 0 @ spec_count_field (count MDp)"
  by (rule nth_equalityI)
     (auto simp: put_count_apply pad_XX_apply pad_byte0 nth_Cons' nth_append spec_count_field_nth
           simp del: upt_Suc)

lemma MD4Update_illegal:
  assumes "done MDp = 0" and "512 < n" and "add_count n 0 (count MDp) = Some c"
  shows "MD4Update MDp X n XX0 = Inr (MDp\<lparr>count := c\<rparr>, [IllegalCount n])"
proof -
  have "n \<noteq> 512" "n \<noteq> 0" using assms(2) by auto
  then show ?thesis using assms by (simp add: MD4Update_def Let_def)
qed

section \<open>Lemmas about the count field\<close>

lemma count_value_Nil [simp]: "count_value [] = 0"
  by (simp add: count_value_def)

lemma count_value_Cons [simp]: "count_value (b # c) = unat b + 256 * count_value c"
  by (simp add: count_value_def)

lemma count_value_update:
  "p < length c \<Longrightarrow>
     count_value (c[p := v]) + unat (c ! p) * 256 ^ p = count_value c + unat v * 256 ^ p"
proof (induction c arbitrary: p)
  case Nil
  then show ?case by simp
next
  case (Cons b c)
  show ?case
  proof (cases p)
    case 0
    then show ?thesis by simp
  next
    case (Suc q)
    with Cons.prems have "q < length c" by simp
    from Cons.IH [OF this, of ] show ?thesis
      by (simp add: Suc algebra_simps)
  qed
qed

lemma count_value_bound: "count_value c < 256 ^ length c"
proof (induction c)
  case Nil
  then show ?case by simp
next
  case (Cons b c)
  have "unat b < 256" using unsigned_less [of b, where ?'a = nat] by simp
  with Cons show ?case by simp
qed

lemma unat_add_byte:
  assumes "unat (tmp::u32) + 255 < 2 ^ 32"
  shows "unat (tmp + ucast (b::byte)) = unat tmp + unat b"
proof -
  have "unat b < 256" using unsigned_less [of b, where ?'a = nat] by simp
  moreover have "unat (ucast b :: u32) = unat b"
    using \<open>unat b < 256\<close> by (simp add: unsigned_ucast_eq take_bit_nat_eq_self)
  ultimately show ?thesis
    using assms by (simp add: unat_word_ariths)
qed


lemma unat_ucast_byte: "unat (ucast (w::u32) :: byte) = unat w mod 256"
  by (simp add: unsigned_ucast_eq take_bit_eq_mod)

lemma add_count_value:
  assumes "length c = 8" and "unat tmp + 255 < 2 ^ 32"
  shows "case add_count tmp p c of
           Some c' \<Rightarrow> length c' = 8 \<and> count_value c' = count_value c + unat tmp * 256 ^ p
         | None \<Rightarrow> 256 ^ 8 \<le> count_value c + unat tmp * 256 ^ p"
  using assms
proof (induction tmp p c rule: add_count.induct)
  case (1 tmp p cnt)
  show ?case
  proof (cases "tmp = 0")
    case True
    then show ?thesis using "1.prems" by (simp add: add_count.simps)
  next
    case nz: False
    then have pos: "0 < unat tmp" by (simp add: unat_gt_0)
    show ?thesis
    proof (cases "8 \<le> p")
      case True
      have "(256::nat) ^ 8 \<le> 256 ^ p" using True by (intro power_increasing) auto
      also have "\<dots> \<le> unat tmp * 256 ^ p" using pos by simp
      finally show ?thesis using nz True by (simp add: add_count.simps)
    next
      case False
      let ?t = "tmp + ucast (cnt ! p)"
      have ut: "unat ?t = unat tmp + unat (cnt ! p)"
        using "1.prems"(2) by (rule unat_add_byte)
      have b: "unat (cnt ! p) < 256" using unsigned_less [of "cnt ! p", where ?'a = nat] by simp
      have small: "unat (drop_bit 8 ?t) + 255 < 2 ^ 32"
        using unsigned_less [of ?t, where ?'a = nat] by (simp add: unat_shr8)
      have len: "length (cnt[p := ucast ?t]) = 8" using "1.prems"(1) by simp
      have plt: "p < length cnt" using False "1.prems"(1) by simp
      have upd: "count_value (cnt[p := ucast ?t]) + unat (cnt ! p) * 256 ^ p
           = count_value cnt + (unat ?t mod 256) * 256 ^ p"
        using count_value_update [OF plt, of "ucast ?t"] by (simp add: unat_ucast_byte)
      have key: "count_value (cnt[p := ucast ?t]) + unat (drop_bit 8 ?t) * 256 ^ Suc p
           = count_value cnt + unat tmp * 256 ^ p"
      proof -
        define T q r P V where "T = unat ?t" and "q = unat ?t div 256" and "r = unat ?t mod 256"
          and "P = (256::nat) ^ p" and "V = count_value (cnt[p := ucast ?t])"
        have T: "T = r + 256 * q" by (simp add: T_def q_def r_def)
        have T2: "T = unat tmp + unat (cnt ! p)" by (simp add: T_def ut)
        have u: "V + unat (cnt ! p) * P = count_value cnt + r * P"
          using upd by (simp add: V_def P_def r_def)
        have "T * P = r * P + 256 * (q * P)" by (simp add: T algebra_simps)
        moreover have "T * P = unat tmp * P + unat (cnt ! p) * P" by (simp add: T2 algebra_simps)
        ultimately have "V + 256 * (q * P) = count_value cnt + unat tmp * P"
          using u by linarith
        then show ?thesis
          by (simp add: unat_shr8 V_def P_def q_def algebra_simps)
      qed
      from "1.IH" [OF nz False refl len small]
      show ?thesis
        using nz False key by (subst add_count.simps) (simp add: Let_def split: option.splits)
    qed
  qed
qed


lemma add_count_total:
  assumes "length c = 8" and "unat n + 255 < 2 ^ 32" and "count_value c + unat n < 2 ^ 64"
  shows "\<exists>c'. add_count n 0 c = Some c' \<and> length c' = 8 \<and> count_value c' = count_value c + unat n"
  using add_count_value [OF assms(1,2), of 0] assms(3)
  by (cases "add_count n 0 c") simp_all

text \<open>
  The first step of the carry loop may wrap \<^verbatim>\<open>tmp\<close> at \<open>2^32\<close> when the bit count is within
  255 of it; the loop then stops after \<^verbatim>\<open>count[0]\<close>.  So for every bit count the loop stays
  inside the 8 count bytes when the sum fits 64 bits.
\<close>

lemma add_count_fits:
  assumes len: "length c = 8" and fits: "count_value c + unat n < 2 ^ 64"
  shows "\<exists>c'. add_count n 0 c = Some c' \<and> length c' = 8"
proof (cases "n = 0")
  case True
  then show ?thesis using len by simp
next
  case nz: False
  let ?t = "n + ucast (c ! 0)"
  let ?c = "c[0 := ucast ?t]"
  have step: "add_count n 0 c = add_count (drop_bit 8 ?t) (Suc 0) ?c"
    using nz by (subst add_count.simps) (simp add: Let_def)
  have small: "unat (drop_bit 8 ?t) + 255 < 2 ^ 32"
    using unsigned_less [of ?t, where ?'a = nat] by (simp add: unat_shr8)
  have lc: "length ?c = 8" using len by simp
  have b: "unat (c ! 0) < 256" using unsigned_less [of "c ! 0", where ?'a = nat] by simp
  have ub: "unat (ucast (c ! 0) :: u32) = unat (c ! 0)"
    using b by (simp add: unsigned_ucast_eq take_bit_nat_eq_self)
  have le: "unat ?t \<le> unat n + unat (c ! 0)"
    using ub by (simp add: unat_word_ariths) 
  have upd: "count_value ?c + unat (c ! 0) = count_value c + unat ?t mod 256"
    using count_value_update [of 0 c "ucast ?t"] len by (simp add: unat_ucast_byte)
  have "count_value ?c + unat (drop_bit 8 ?t) * 256 ^ Suc 0 < 256 ^ 8"
  proof -
    define T V where "T = unat ?t" and "V = count_value ?c"
    have "T = T mod 256 + 256 * (T div 256)" by simp
    moreover have "V + unat (c ! 0) = count_value c + T mod 256"
      using upd by (simp add: T_def V_def)
    ultimately have "V + (T div 256) * 256 + unat (c ! 0) = count_value c + T"
      by linarith
    then have "count_value ?c + unat (drop_bit 8 ?t) * 256 + unat (c ! 0) = count_value c + unat ?t"
      by (simp add: unat_shr8 T_def V_def)
    then have "count_value ?c + unat (drop_bit 8 ?t) * 256 \<le> count_value c + unat n"
      using le by linarith
    then show ?thesis using fits by simp
  qed
  with add_count_value [OF lc small, of "Suc 0"] show ?thesis
    by (cases "add_count (drop_bit 8 ?t) (Suc 0) ?c") (simp_all add: step)
qed

text \<open>
  With all count bytes at \<open>0xFF\<close> a call with 513 bits carries out of \<^verbatim>\<open>count[7]\<close>: the
  loop stores behind the array, where the structure holds \<^verbatim>\<open>done\<close>.
\<close>

lemma count_overrun_example:
  "MD4Update \<lparr>buffer = [I0, I1, I2, I3], count = replicate 8 0xFF, done = 0\<rparr> X 513 XX0
     = Inl CountOverrun"
proof -
  have "add_count 513 0 [0xFF, 0xFF, 0xFF, 0xFF, 0xFF, 0xFF, 0xFF, 0xFF] = None"
    by (simp add: add_count.simps)
  then show ?thesis by (simp add: MD4Update_def replicate8)
qed



lemma MD4Update_full:
  assumes "done MDp = 0" and "add_count 512 0 (count MDp) = Some c"
  shows "MD4Update MDp (Some x) 512 XX0 = Inr (MDblock (MDp\<lparr>count := c\<rparr>) x, [])"
  using assms by (simp add: MD4Update_def)

lemma MD4Update_null:
  assumes "done MDp = 0" and "n < 512" and "n \<noteq> 0" and "add_count n 0 (count MDp) = Some c"
  shows "MD4Update MDp None n XX0 = Inl NullDeref"
proof -
  have "n \<noteq> 512" "\<not> 512 < n" using assms(2) by auto
  then show ?thesis using assms by (simp add: MD4Update_def Let_def copy_X_def)
qed




section \<open>The block transform, step by step\<close>

lemma rot_rotl:
  assumes "0 < S" and "S < 32"
  shows "rot X S = word_rotl S X"
  unfolding rot_def
proof (rule bit_word_eqI)
  fix n :: nat
  assume "n < LENGTH(32)"
  then have n: "n < 32" by simp
  show "bit (push_bit S X OR drop_bit (32 - S) X) n = bit (word_rotl S X) n"
  proof (cases "n < S")
    case True
    then have "(n + (32 - S mod 32)) mod 32 = 32 - S + n"
      using assms by simp
    then show ?thesis
      using True n assms by (simp add: bit_simps)
  next
    case False
    then have m: "(n + (32 - S mod 32)) mod 32 = n - S"
      using assms n by (simp add: mod_if)
    have "\<not> bit X (32 - S + n)"
      using False assms by (auto dest: bit_imp_le_length)
    then show ?thesis
      using False n assms m by (simp add: bit_simps)
  qed
qed

lemma spec_le32_four:
  "spec_le32 [b0, b1, b2, b3]
     = ucast b0 + push_bit 8 (ucast b1) + push_bit 16 (ucast b2) + push_bit 24 (ucast b3)"
  by (simp add: spec_le32_def push_bit_eq_mult)

lemma take4_drop_block:
  assumes "i < 16"
  shows "take 4 (drop (4 * i) (map Xb [0..<64])) = [Xb (4 * i), Xb (4 * i + 1), Xb (4 * i + 2), Xb (4 * i + 3)]"
proof -
  have "take 4 (drop (4 * i) [0..<64]) = [4 * i..<4 * i + 4]"
    using assms by (simp add: take_upt)
  also have "\<dots> = [4 * i, 4 * i + 1, 4 * i + 2, 4 * i + 3]"
    by (simp add: upt_rec)
  finally show ?thesis
    by (simp add: drop_map take_map)
qed

lemma spec_words_load_X: "spec_words (map Xb [0..<64]) = load_X Xb"
  unfolding spec_words_def load_X_def
  by (rule map_cong) (simp_all add: take4_drop_block spec_le32_four)


lemma quad_ff:
  assumes "0 < s0" "s0 < 32" "0 < s1" "s1 < 32" "0 < s2" "s2 < 32" "0 < s3" "s3 < 32"
  shows "ff B C D A i3 s3 X (ff C D A B i2 s2 X (ff D A B C i1 s1 X (ff A B C D i0 s0 X r)))
       = spec_step spec_sel1 0 s3 (X ! i3) (spec_step spec_sel1 0 s2 (X ! i2)
           (spec_step spec_sel1 0 s1 (X ! i1) (spec_step spec_sel1 0 s0 (X ! i0) r)))"
  using assms
  by (cases r) (simp add: ff_def spec_step_def rot_rotl f_def spec_sel1_def)

lemma quad_gg:
  assumes "0 < s0" "s0 < 32" "0 < s1" "s1 < 32" "0 < s2" "s2 < 32" "0 < s3" "s3 < 32"
  shows "gg B C D A i3 s3 X (gg C D A B i2 s2 X (gg D A B C i1 s1 X (gg A B C D i0 s0 X r)))
       = spec_step spec_sel2 C2 s3 (X ! i3) (spec_step spec_sel2 C2 s2 (X ! i2)
           (spec_step spec_sel2 C2 s1 (X ! i1) (spec_step spec_sel2 C2 s0 (X ! i0) r)))"
  using assms
  by (cases r) (simp add: gg_def spec_step_def rot_rotl g_def spec_sel2_def)

lemma quad_hh:
  assumes "0 < s0" "s0 < 32" "0 < s1" "s1 < 32" "0 < s2" "s2 < 32" "0 < s3" "s3 < 32"
  shows "hh B C D A i3 s3 X (hh C D A B i2 s2 X (hh D A B C i1 s1 X (hh A B C D i0 s0 X r)))
       = spec_step spec_sel3 C3 s3 (X ! i3) (spec_step spec_sel3 C3 s2 (X ! i2)
           (spec_step spec_sel3 C3 s1 (X ! i1) (spec_step spec_sel3 C3 s0 (X ! i0) r)))"
  using assms
  by (cases r) (simp add: hh_def spec_step_def rot_rotl h_def spec_sel3_def)

lemmas shift_defs = fs1_def fs2_def fs3_def fs4_def gs1_def gs2_def gs3_def gs4_def
  hs1_def hs2_def hs3_def hs4_def

lemma steps_spec:
  "fold (\<lambda>stmt. stmt X) MDblock_steps r
     = spec_round spec_sel3 C3 [3, 9, 11, 15]
         [0, 8, 4, 12, 2, 10, 6, 14, 1, 9, 5, 13, 3, 11, 7, 15] X
        (spec_round spec_sel2 C2 [3, 5, 9, 13]
           [0, 4, 8, 12, 1, 5, 9, 13, 2, 6, 10, 14, 3, 7, 11, 15] X
           (spec_round spec_sel1 0 [3, 7, 11, 19] [0..<16] X r))"
  by (simp add: MDblock_steps_def shift_defs quad_ff quad_gg quad_hh spec_round_def upt16)

lemma update4:
  assumes "length xs = 4"
  shows "xs[0 := x0, Suc 0 := x1, 2 := x2, 3 := x3] = [x0, x1, x2, x3]"
proof -
  from assms obtain a b c d where "xs = [a, b, c, d]"
    by (auto simp: length_Suc_conv numeral_eq_Suc)
  then show ?thesis by (simp add: numeral_eq_Suc)
qed

lemma MDblock_spec:
  assumes "length (buffer MDp) = 4"
  shows "MDblock MDp Xb = MDp\<lparr>buffer := spec_block (buffer MDp) (map Xb [0..<64])\<rparr>"
proof -
  obtain a b c d where r: "fold (\<lambda>stmt. stmt (load_X Xb)) MDblock_steps (init_regs MDp) = (a, b, c, d)"
    by (metis prod_cases4)
  have "MDblock MDp Xb = MDp\<lparr>buffer := [buffer MDp ! 0 + a, buffer MDp ! 1 + b,
                                           buffer MDp ! 2 + c, buffer MDp ! 3 + d]\<rparr>"
    using assms r by (simp add: MDblock_def update4)
  moreover have "spec_block (buffer MDp) (map Xb [0..<64])
      = [buffer MDp ! 0 + a, buffer MDp ! 1 + b, buffer MDp ! 2 + c, buffer MDp ! 3 + d]"
    using r unfolding steps_spec
    by (simp add: spec_block_def spec_words_load_X init_regs_def C2_def C3_def)
  ultimately show ?thesis by simp
qed

lemma MDblock_empty:
  "MDblock \<lparr>buffer = [I0, I1, I2, I3], count = replicate 8 0, done = 0\<rparr>
           ((!) (0x80 # replicate 55 0 @ replicate 8 0))
     = \<lparr>buffer = [0xe0cfd631, 0x31e96ad1, 0xd7593cb7, 0xc089c0e0], count = replicate 8 0, done = 0\<rparr>"
  by (subst MDblock_eval [OF load_X_empty_block _ steps_empty_block])
     (simp_all add: I0_def I1_def I2_def I3_def)

section \<open>Messages of less than 64 bytes\<close>

lemma le_bytes_count_value: "spec_le_bytes (length c) (count_value c) = c"
proof (induction c)
  case Nil
  then show ?case by simp
next
  case (Cons b c)
  have "unat b < 256" using unsigned_less [of b, where ?'a = nat] by simp
  then have "(unat b + 256 * count_value c) mod 256 = unat b"
    and "(unat b + 256 * count_value c) div 256 = count_value c"
    by simp_all
  with Cons show ?case by simp
qed

lemma length_spec_le_bytes [simp]: "length (spec_le_bytes k v) = k"
  by (induction k arbitrary: v) simp_all

lemma unat_of_nat_bits:
  assumes "len < 2 ^ 28"
  shows "unat (of_nat (8 * len) :: u32) = 8 * len"
proof -
  have "8 * len < 2 ^ 32" using assms by simp
  then show ?thesis by (simp only: unat_of_nat) simp
qed

lemma mdlen_of_len:
  "(ucast ((of_nat len :: 64 word) * 8) :: u32) = of_nat (8 * len)"
proof -
  have "(of_nat len :: 64 word) * 8 = of_nat (8 * len)" by simp
  moreover have "(ucast (of_nat k :: 64 word) :: u32) = of_nat k" for k
  proof -
    have "(ucast (of_nat k :: 64 word) :: u32) = of_nat (unat (of_nat k :: 64 word))"
      by simp
    also have "\<dots> = of_nat (k mod 2 ^ 64)"
      by (simp only: unat_of_nat) simp
    also have "\<dots> = of_nat k"
      unfolding word_of_nat_eq_iff
      by (simp add: take_bit_eq_mod mod_mod_cancel)
    finally show ?thesis .
  qed
  ultimately show ?thesis by (simp only:)
qed


lemma partial_block_short:
  assumes "length M < 64"
  shows "spec_partial_block (\<lambda>i. if i < length M then M ! i else rest i) (8 * length M)
       = M @ 0x80 # replicate (63 - length M) 0"
  using assms
  by (intro nth_equalityI) (auto simp: spec_partial_block_def nth_append nth_Cons' pad_byte0)

lemma add_count_le_bytes:
  assumes "length c = 8" and "unat n + 255 < 2 ^ 32" and "count_value c + unat n < 2 ^ 64"
  shows "add_count n 0 c = Some (spec_le_bytes 8 (count_value c + unat n))"
proof -
  from add_count_total [OF assms] obtain c' where
    c': "add_count n 0 c = Some c'" "length c' = 8" "count_value c' = count_value c + unat n"
    by blast
  from le_bytes_count_value [of c'] c' show ?thesis by simp
qed

lemma feed_short:
  assumes "length M < 64" and "done MDp = 0" and "length (count MDp) = 8"
    and "count_value (count MDp) + 8 * length M < 2 ^ 64"
  shows "md4_update_loop MDp (buf_ptr M rest) (of_nat (8 * length M)) XX0
       = Inr (spec_terminal (MDp\<lparr>count := spec_le_bytes 8 (count_value (count MDp) + 8 * length M)\<rparr>)
                (\<lambda>i. if i < length M then M ! i else rest i) (8 * length M), [])"
proof -
  let ?n = "of_nat (8 * length M) :: u32"
  have len: "length M < 2 ^ 28" using assms(1) by simp
  have un: "unat ?n = 8 * length M" using len by (rule unat_of_nat_bits)
  have lt: "?n < 512" using assms(1) un by (simp add: word_less_nat_alt)
  have ac: "add_count ?n 0 (count MDp) = Some (spec_le_bytes 8 (count_value (count MDp) + 8 * length M))"
    using add_count_le_bytes [OF assms(3), of ?n] assms(1,4) un by simp
  have "md4_update_loop MDp (buf_ptr M rest) ?n XX0 = MD4Update MDp (buf_ptr M rest) ?n XX0"
    using assms(1) un by (intro md4_update_loop_small) simp
  also have "\<dots> = Inr (spec_terminal (MDp\<lparr>count := spec_le_bytes 8 (count_value (count MDp) + 8 * length M)\<rparr>)
                (\<lambda>i. if i < length M then M ! i else rest i) (unat ?n), [])"
    by (rule MD4Update_partial [OF assms(2) lt ac]) (simp add: buf_ptr_def)
  finally show ?thesis by (simp only: un)
qed

lemma terminal_one_block:
  assumes "length M \<le> 55" and "length (count MDp) = 8"
  shows "spec_terminal MDp (\<lambda>i. if i < length M then M ! i else rest i) (8 * length M)
       = (MDblock MDp ((!) (M @ 0x80 # replicate (55 - length M) 0 @ count MDp)))\<lparr>done := 1\<rparr>"
proof -
  have "take 56 (M @ 0x80 # replicate (63 - length M) 0) = M @ 0x80 # replicate (55 - length M) 0"
    using assms(1) by (intro nth_equalityI) (auto simp: nth_append nth_Cons')
  then show ?thesis
    using assms by (simp add: spec_terminal_def partial_block_short spec_count_field_id)
qed

lemma terminal_two_blocks:
  assumes "56 \<le> length M" and "length M < 64" and "length (count MDp) = 8"
  shows "spec_terminal MDp (\<lambda>i. if i < length M then M ! i else rest i) (8 * length M)
       = (MDblock (MDblock MDp ((!) (M @ 0x80 # replicate (63 - length M) 0)))
                  ((!) (replicate 56 0 @ count MDp)))\<lparr>done := 1\<rparr>"
  using assms by (simp add: spec_terminal_def partial_block_short spec_count_field_id)

lemma md4_final_done:
  assumes "done MD \<noteq> 0"
  shows "md4_final \<lparr>priv = Some MD\<rparr> XX0
       = Inr (1, concat (map (\<lambda>i. emit_word 4 (buffer MD ! i)) [0, 1, 2, 3]), \<lparr>priv = Some MD\<rparr>, [])"
  using assms by (simp add: md4_final_def MD4Final_done upt4)

text \<open>The digest of a message of less than 64 bytes, fed in one call.\<close>

lemma md4_run_lt64:
  assumes "length M < 64"
  shows "md4_run [(buf_ptr M rest, of_nat (length M), XX0)] XX1
       = Inr (concat (map (\<lambda>i. emit_word 4
                (buffer (spec_terminal \<lparr>buffer = [I0, I1, I2, I3], count = spec_le_bytes 8 (8 * length M), done = 0\<rparr>
                           (\<lambda>i. if i < length M then M ! i else rest i) (8 * length M)) ! i))
              [0, 1, 2, 3]), [])"
proof -
  let ?M0 = "\<lparr>buffer = [I0, I1, I2, I3], count = replicate 8 0, done = 0\<rparr>"
  have cv: "count_value (replicate 8 (0::byte)) = 0" by (simp add: replicate8)
  have f: "md4_update_loop ?M0 (buf_ptr M rest) (of_nat (8 * length M)) XX0
      = Inr (spec_terminal (?M0\<lparr>count := spec_le_bytes 8 (8 * length M)\<rparr>)
                (\<lambda>i. if i < length M then M ! i else rest i) (8 * length M), [])"
    using feed_short [of M ?M0 rest XX0] assms by (simp add: cv)
  have d: "done (spec_terminal MD x k) \<noteq> 0" for MD x k
    by (simp add: spec_terminal_def Let_def)
  show ?thesis
    by (simp add: md4_run_def md4_init_def MD4Init_calloc md4_update_def mdlen_of_len f
          md4_final_done d del: of_nat_mult)
qed

lemma md4_run_short_aux:
  assumes "length M \<le> 55"
  shows "md4_run [(buf_ptr M rest, of_nat (length M), XX0)] XX1
       = Inr (concat (map (\<lambda>i. emit_word 4
                (buffer (MDblock \<lparr>buffer = [I0, I1, I2, I3], count = spec_le_bytes 8 (8 * length M), done = 0\<rparr>
                                 ((!) (M @ 0x80 # replicate (55 - length M) 0 @ spec_le_bytes 8 (8 * length M)))) ! i))
              [0, 1, 2, 3]), [])"
  using assms md4_run_lt64 [of M rest XX0 XX1]
  by (simp add: terminal_one_block del: of_nat_mult)

lemma md4_run_short:
  assumes "length M = len" and "len \<le> 55"
  shows "md4_run [(buf_ptr M rest, of_nat len, XX0)] XX1
       = Inr (concat (map (\<lambda>i. emit_word 4
                (buffer (MDblock \<lparr>buffer = [I0, I1, I2, I3], count = spec_le_bytes 8 (8 * len), done = 0\<rparr>
                                 ((!) (M @ 0x80 # replicate (55 - len) 0 @ spec_le_bytes 8 (8 * len)))) ! i))
              [0, 1, 2, 3]), [])"
  using md4_run_short_aux [of M rest XX0 XX1] assms by (simp del: of_nat_mult)

lemma spec_le_bytes8:
  "spec_le_bytes 8 v = [of_nat (v mod 256), of_nat (v div 256 mod 256),
     of_nat (v div 256 div 256 mod 256), of_nat (v div 256 div 256 div 256 mod 256),
     of_nat (v div 256 div 256 div 256 div 256 mod 256),
     of_nat (v div 256 div 256 div 256 div 256 div 256 mod 256),
     of_nat (v div 256 div 256 div 256 div 256 div 256 div 256 mod 256),
     of_nat (v div 256 div 256 div 256 div 256 div 256 div 256 div 256 mod 256)]"
proof -
  have e: "spec_le_bytes (Suc (Suc (Suc (Suc (Suc (Suc (Suc (Suc 0)))))))) v = [of_nat (v mod 256), of_nat (v div 256 mod 256),
     of_nat (v div 256 div 256 mod 256), of_nat (v div 256 div 256 div 256 mod 256),
     of_nat (v div 256 div 256 div 256 div 256 mod 256),
     of_nat (v div 256 div 256 div 256 div 256 div 256 mod 256),
     of_nat (v div 256 div 256 div 256 div 256 div 256 div 256 mod 256),
     of_nat (v div 256 div 256 div 256 div 256 div 256 div 256 div 256 mod 256)]"
    by simp
  have n: "(8::nat) = Suc (Suc (Suc (Suc (Suc (Suc (Suc (Suc 0)))))))"
    by simp
  show ?thesis
    by (subst n) (rule e)
qed

lemma vec_empty_words:
  "load_X ((!) (0x80 # replicate 55 0 @ [0, 0, 0, 0, 0, 0, 0, 0]))
     = [0x80, 0, 0, 0, 0, 0, 0, 0, 0, 0, 0, 0, 0, 0, 0, 0]"
  by (simp add: load_X_def upt16 nth_append nth_Cons')

lemma vec_empty_steps:
  "fold (\<lambda>stmt. stmt [0x80, 0, 0, 0, 0, 0, 0, 0, 0, 0, 0, 0, 0, 0, 0, 0])
        MDblock_steps (0x67452301, 0xefcdab89, 0x98badcfe, 0x10325476)
     = (0x798ab330, 0x421bbf48, 0x3e9e5fb9, 0xb0576c6a)"
  by (simp add: md4_eval)

lemma vec_empty_block:
  "MDblock \<lparr>buffer = [I0, I1, I2, I3], count = [0, 0, 0, 0, 0, 0, 0, 0], done = 0\<rparr>
           ((!) (0x80 # replicate 55 0 @ [0, 0, 0, 0, 0, 0, 0, 0]))
     = \<lparr>buffer = [0xe0cfd631, 0x31e96ad1, 0xd7593cb7, 0xc089c0e0], count = [0, 0, 0, 0, 0, 0, 0, 0], done = 0\<rparr>"
  by (subst MDblock_eval [OF vec_empty_words _ vec_empty_steps])
     (simp_all add: I0_def I1_def I2_def I3_def)

lemma vec_empty_digest:
  "md4_run [(buf_ptr [] rest, 0, XX0)] XX1
     = Inr ([0x31, 0xd6, 0xcf, 0xe0, 0xd1, 0x6a, 0xe9, 0x31, 0xb7, 0x3c, 0x59, 0xd7, 0xe0, 0xc0, 0x89, 0xc0], [])"
  using md4_run_short [of "[]" 0 rest XX0 XX1]
  by (simp add: spec_le_bytes8 vec_empty_block emit_word4)

lemma vec_a_words:
  "load_X ((!) (0x61 # 0x80 # replicate 54 0 @ [0x8, 0, 0, 0, 0, 0, 0, 0]))
     = [0x8061, 0, 0, 0, 0, 0, 0, 0, 0, 0, 0, 0, 0, 0, 0x8, 0]"
  by (simp add: load_X_def upt16 nth_append nth_Cons')

lemma vec_a_steps:
  "fold (\<lambda>stmt. stmt [0x8061, 0, 0, 0, 0, 0, 0, 0, 0, 0, 0, 0, 0, 0, 0x8, 0])
        MDblock_steps (0x67452301, 0xefcdab89, 0x98badcfe, 0x10325476)
     = (0x4be7c2bc, 0x56713794, 0x624a8126, 0x14c98265)"
  by (simp add: md4_eval)

lemma vec_a_block:
  "MDblock \<lparr>buffer = [I0, I1, I2, I3], count = [0x8, 0, 0, 0, 0, 0, 0, 0], done = 0\<rparr>
           ((!) (0x61 # 0x80 # replicate 54 0 @ [0x8, 0, 0, 0, 0, 0, 0, 0]))
     = \<lparr>buffer = [0xb32ce5bd, 0x463ee31d, 0xfb055e24, 0x24fbd6db], count = [0x8, 0, 0, 0, 0, 0, 0, 0], done = 0\<rparr>"
  by (subst MDblock_eval [OF vec_a_words _ vec_a_steps])
     (simp_all add: I0_def I1_def I2_def I3_def)

lemma vec_a_digest:
  "md4_run [(buf_ptr [0x61] rest, 1, XX0)] XX1
     = Inr ([0xbd, 0xe5, 0x2c, 0xb3, 0x1d, 0xe3, 0x3e, 0x46, 0x24, 0x5e, 0x5, 0xfb, 0xdb, 0xd6, 0xfb, 0x24], [])"
  using md4_run_short [of "[0x61]" 1 rest XX0 XX1]
  by (simp add: spec_le_bytes8 vec_a_block emit_word4)

lemma vec_abc_words:
  "load_X ((!) (0x61 # 0x62 # 0x63 # 0x80 # replicate 52 0 @ [0x18, 0, 0, 0, 0, 0, 0, 0]))
     = [0x80636261, 0, 0, 0, 0, 0, 0, 0, 0, 0, 0, 0, 0, 0, 0x18, 0]"
  by (simp add: load_X_def upt16 nth_append nth_Cons')

lemma vec_abc_steps:
  "fold (\<lambda>stmt. stmt [0x80636261, 0, 0, 0, 0, 0, 0, 0, 0, 0, 0, 0, 0, 0, 0x18, 0])
        MDblock_steps (0x67452301, 0xefcdab89, 0x98badcfe, 0x10325476)
     = (0x12bc25a3, 0x630a7626, 0x4f4fe461, 0x8d405204)"
  by (simp add: md4_eval)

lemma vec_abc_block:
  "MDblock \<lparr>buffer = [I0, I1, I2, I3], count = [0x18, 0, 0, 0, 0, 0, 0, 0], done = 0\<rparr>
           ((!) (0x61 # 0x62 # 0x63 # 0x80 # replicate 52 0 @ [0x18, 0, 0, 0, 0, 0, 0, 0]))
     = \<lparr>buffer = [0x7a0148a4, 0x52d821af, 0xe80ac15f, 0x9d72a67a], count = [0x18, 0, 0, 0, 0, 0, 0, 0], done = 0\<rparr>"
  by (subst MDblock_eval [OF vec_abc_words _ vec_abc_steps])
     (simp_all add: I0_def I1_def I2_def I3_def)

lemma vec_abc_digest:
  "md4_run [(buf_ptr [0x61, 0x62, 0x63] rest, 3, XX0)] XX1
     = Inr ([0xa4, 0x48, 0x1, 0x7a, 0xaf, 0x21, 0xd8, 0x52, 0x5f, 0xc1, 0xa, 0xe8, 0x7a, 0xa6, 0x72, 0x9d], [])"
  using md4_run_short [of "[0x61, 0x62, 0x63]" 3 rest XX0 XX1]
  by (simp add: spec_le_bytes8 vec_abc_block emit_word4)

lemma vec_message_digest_words:
  "load_X ((!) (0x6d # 0x65 # 0x73 # 0x73 # 0x61 # 0x67 # 0x65 # 0x20 # 0x64 # 0x69 # 0x67 # 0x65 # 0x73 # 0x74 # 0x80 # replicate 41 0 @ [0x70, 0, 0, 0, 0, 0, 0, 0]))
     = [0x7373656d, 0x20656761, 0x65676964, 0x807473, 0, 0, 0, 0, 0, 0, 0, 0, 0, 0, 0x70, 0]"
  by (simp add: load_X_def upt16 nth_append nth_Cons')

lemma vec_message_digest_steps:
  "fold (\<lambda>stmt. stmt [0x7373656d, 0x20656761, 0x65676964, 0x807473, 0, 0, 0, 0, 0, 0, 0, 0, 0, 0, 0x70, 0])
        MDblock_steps (0x67452301, 0xefcdab89, 0x98badcfe, 0x10325476)
     = (0x19c4f0d8, 0xf8d1a8db, 0x6d8daa1a, 0x3acf736b)"
  by (simp add: md4_eval)

lemma vec_message_digest_block:
  "MDblock \<lparr>buffer = [I0, I1, I2, I3], count = [0x70, 0, 0, 0, 0, 0, 0, 0], done = 0\<rparr>
           ((!) (0x6d # 0x65 # 0x73 # 0x73 # 0x61 # 0x67 # 0x65 # 0x20 # 0x64 # 0x69 # 0x67 # 0x65 # 0x73 # 0x74 # 0x80 # replicate 41 0 @ [0x70, 0, 0, 0, 0, 0, 0, 0]))
     = \<lparr>buffer = [0x810a13d9, 0xe89f5464, 0x6488718, 0x4b01c7e1], count = [0x70, 0, 0, 0, 0, 0, 0, 0], done = 0\<rparr>"
  by (subst MDblock_eval [OF vec_message_digest_words _ vec_message_digest_steps])
     (simp_all add: I0_def I1_def I2_def I3_def)

lemma vec_message_digest_digest:
  "md4_run [(buf_ptr [0x6d, 0x65, 0x73, 0x73, 0x61, 0x67, 0x65, 0x20, 0x64, 0x69, 0x67, 0x65, 0x73, 0x74] rest, 14, XX0)] XX1
     = Inr ([0xd9, 0x13, 0xa, 0x81, 0x64, 0x54, 0x9f, 0xe8, 0x18, 0x87, 0x48, 0x6, 0xe1, 0xc7, 0x1, 0x4b], [])"
  using md4_run_short [of "[0x6d, 0x65, 0x73, 0x73, 0x61, 0x67, 0x65, 0x20, 0x64, 0x69, 0x67, 0x65, 0x73, 0x74]" 14 rest XX0 XX1]
  by (simp add: spec_le_bytes8 vec_message_digest_block emit_word4)


lemma length_spec_block [simp]: "length (spec_block st blk) = 4"
  by (simp add: spec_block_def Let_def split: prod.splits)

lemma MDblock_list:
  assumes "length (buffer MDp) = 4" and "length blk = 64"
  shows "MDblock MDp ((!) blk) = MDp\<lparr>buffer := spec_block (buffer MDp) blk\<rparr>"
proof -
  have "map ((!) blk) [0..<64] = blk"
    using assms(2) map_nth [of blk] by simp
  then show ?thesis
    using MDblock_spec [OF assms(1), of "(!) blk"] by simp
qed

lemma digest_bytes_eq:
  assumes "length st = 4"
  shows "concat (map (\<lambda>i. emit_word 4 (st ! i)) [0, 1, 2, 3])
       = concat (map (\<lambda>w. spec_le_bytes 4 (unat w)) st)"
proof -
  from assms obtain a b c d where "st = [a, b, c, d]"
    by (auto simp: length_Suc_conv numeral_eq_Suc)
  then show ?thesis by (simp add: emit_word_spec)
qed

lemma spec_blocks_one: "length a = 64 \<Longrightarrow> spec_blocks a = [a]"
  by (simp add: spec_blocks_def)

lemma spec_blocks_two: "length a = 64 \<Longrightarrow> length b = 64 \<Longrightarrow> spec_blocks (a @ b) = [a, b]"
proof -
  assume l: "length a = 64" "length b = 64"
  have "[0..<2] = [0, Suc 0]" by (simp add: upt_rec)
  with l show ?thesis by (simp add: spec_blocks_def)
qed

lemma spec_pad_short:
  assumes "length M \<le> 55"
  shows "spec_pad M = M @ 0x80 # replicate (55 - length M) 0 @ spec_le_bytes 8 (8 * length M)"
proof -
  have "(119 - length M mod 64) mod 64 = 55 - length M"
    using assms by (simp add: mod_if)
  then show ?thesis by (simp add: spec_pad_def)
qed

lemma spec_pad_long:
  assumes "56 \<le> length M" and "length M < 64"
  shows "spec_pad M = (M @ 0x80 # replicate (63 - length M) 0)
                      @ (replicate 56 0 @ spec_le_bytes 8 (8 * length M))"
proof -
  have "(119 - length M mod 64) mod 64 = (63 - length M) + 56"
    using assms by (simp add: mod_if)
  then show ?thesis by (simp add: spec_pad_def replicate_add)
qed

text \<open>Fed in one call, a message of less than 64 bytes gets its reference digest.\<close>

lemma md4_run_is_spec:
  assumes "length M < 64"
  shows "md4_run [(buf_ptr M rest, of_nat (length M), XX0)] XX1 = Inr (spec_md4 M, [])"
proof (cases "length M \<le> 55")
  case True
  let ?c = "spec_le_bytes 8 (8 * length M)"
  let ?blk = "M @ 0x80 # replicate (55 - length M) 0 @ ?c"
  let ?S = "spec_block [I0, I1, I2, I3] ?blk"
  have l: "length ?blk = 64" using True by simp
  have s: "spec_md4 M = concat (map (\<lambda>w. spec_le_bytes 4 (unat w)) ?S)"
    using l by (simp add: spec_md4_def spec_pad_short [OF True] spec_blocks_one I0_def I1_def I2_def I3_def)
  have b: "buffer (MDblock \<lparr>buffer = [I0, I1, I2, I3], count = ?c, done = 0\<rparr> ((!) ?blk)) = ?S"
    using l by (simp add: MDblock_list)
  have dg: "concat (map (\<lambda>i. emit_word 4 (?S ! i)) [0, 1, 2, 3])
      = concat (map (\<lambda>w. spec_le_bytes 4 (unat w)) ?S)"
    by (rule digest_bytes_eq) simp
  show ?thesis
    unfolding md4_run_short_aux [OF True] b dg s ..
next
  case False
  then have ge: "56 \<le> length M" by simp
  let ?c = "spec_le_bytes 8 (8 * length M)"
  let ?a = "M @ 0x80 # replicate (63 - length M) 0"
  let ?b = "replicate 56 0 @ ?c"
  let ?S = "spec_block (spec_block [I0, I1, I2, I3] ?a) ?b"
  let ?M0 = "\<lparr>buffer = [I0, I1, I2, I3], count = ?c, done = 0\<rparr>"
  have la: "length ?a = 64" using assms by simp
  have lb: "length ?b = 64" by simp
  have s: "spec_md4 M = concat (map (\<lambda>w. spec_le_bytes 4 (unat w)) ?S)"
    using la lb
    by (simp only: spec_md4_def spec_pad_long [OF ge assms] spec_blocks_two [OF la lb])
       (simp add: I0_def I1_def I2_def I3_def)
  have t: "spec_terminal ?M0 (\<lambda>i. if i < length M then M ! i else rest i) (8 * length M)
      = (MDblock (MDblock ?M0 ((!) ?a)) ((!) ?b))\<lparr>done := 1\<rparr>"
    using terminal_two_blocks [OF ge assms, of ?M0 rest] by simp
  have b: "buffer ((MDblock (MDblock ?M0 ((!) ?a)) ((!) ?b))\<lparr>done := 1\<rparr>) = ?S"
    using la lb by (simp add: MDblock_list)
  have dg: "concat (map (\<lambda>i. emit_word 4 (?S ! i)) [0, 1, 2, 3])
      = concat (map (\<lambda>w. spec_le_bytes 4 (unat w)) ?S)"
    by (rule digest_bytes_eq) simp
  show ?thesis
    unfolding md4_run_lt64 [OF assms] t b dg s ..
qed


section \<open>Feeds of any length\<close>

lemma then_do_Inl [simp]: "then_do (Inl e) k = Inl e"
  by (simp add: then_do_def)

lemma then_do_Inr [simp]: "then_do (Inr (a, [])) k = k a"
  by (simp add: then_do_def split: sum.splits)

lemma then_do_return [simp]: "then_do r (\<lambda>a. Inr (a, [])) = r"
  by (simp add: then_do_def split: sum.splits prod.splits)

lemma then_do_assoc: "then_do (then_do r k) l = then_do r (\<lambda>a. then_do (k a) l)"
  by (simp add: then_do_def split: sum.splits prod.splits)

lemma md4_update_loop_then_do:
  "md4_update_loop MDp data mdlen XX0 =
     (if 512 <s mdlen
      then then_do (MD4Update MDp data 512 XX0)
             (\<lambda>MDp'. md4_update_loop MDp' (ptr_add data 64) (mdlen - 512) XX0)
      else MD4Update MDp data mdlen XX0)"
  by (subst md4_update_loop.simps) (simp add: then_do_def)

lemma md4_feeds_lift:
  "md4_feeds (c\<lparr>priv := Some MDp\<rparr>) feeds
     = then_do (feeds_ctx MDp feeds) (\<lambda>MDp'. Inr (c\<lparr>priv := Some MDp'\<rparr>, []))"
proof (induction feeds arbitrary: MDp)
  case Nil
  then show ?case by simp
next
  case (Cons call feeds)
  obtain data len XX0 where call: "call = (data, len, XX0)" by (cases call)
  show ?case
    by (simp add: call md4_update_def feed_ctx_def Cons then_do_def split: sum.splits prod.splits)
qed

lemma md4_run_ctx:
  "md4_run feeds XX1 = then_do (feeds_ctx (MD4Init calloc_MD4_CTX) feeds) (\<lambda>MDp. finish_ctx MDp XX1)"
proof -
  have "md4_feeds \<lparr>priv = Some (MD4Init calloc_MD4_CTX)\<rparr> feeds
     = then_do (feeds_ctx (MD4Init calloc_MD4_CTX) feeds) (\<lambda>MDp'. Inr (\<lparr>priv = Some MDp'\<rparr>, []))"
    using md4_feeds_lift [where c = "\<lparr>priv = None\<rparr>" and MDp = "MD4Init calloc_MD4_CTX"] by simp
  then show ?thesis
    by (simp add: md4_run_def md4_init_def md4_final_def finish_ctx_def then_do_def
             split: sum.splits prod.splits)
qed


lemma sint_of_nat_small:
  assumes "N < 2 ^ 31"
  shows "sint (of_nat N :: u32) = int N"
proof -
  have "N < 2 ^ 32" using assms by simp
  then have "unat (of_nat N :: u32) = N"
    by (simp only: unat_of_nat) simp
  then have u: "uint (of_nat N :: u32) = int N"
    by (metis uint_nat)
  have "(0::int) \<le> 2 ^ 31" by simp
  then have ge: "- (2 ^ 31) \<le> int N" by linarith
  have "int N < int (2 ^ 31)" using assms by (simp only: of_nat_less_iff)
  then have lt: "int N < 2 ^ 31" by simp
  have "signed_take_bit 31 (int N) = int N"
    using ge lt by (rule signed_take_bit_int_eq_self)
  then show ?thesis by (simp add: sint_uint u)
qed

lemma sless_of_nat:
  assumes "N < 2 ^ 31"
  shows "512 <s (of_nat N :: u32) \<longleftrightarrow> 512 < N"
  using sint_of_nat_small [OF assms] by (simp add: word_sless_alt)

lemma loop_nat:
  assumes "N < 2 ^ 31"
  shows "md4_update_loop MDp data (of_nat N) XX0 =
     (if 512 < N
      then then_do (MD4Update MDp data 512 XX0)
             (\<lambda>MDp'. md4_update_loop MDp' (ptr_add data 64) (of_nat (N - 512)) XX0)
      else MD4Update MDp data (of_nat N) XX0)"
proof (cases "512 < N")
  case True
  then have "(of_nat N :: u32) - 512 = of_nat (N - 512)" by simp
  then show ?thesis
    using True sless_of_nat [OF assms]
    by (subst md4_update_loop_then_do) simp
next
  case False
  then show ?thesis
    using sless_of_nat [OF assms]
    by (subst md4_update_loop_then_do) simp
qed

lemma MD4Update_scratch: "MD4Update MDp X n XX0 = MD4Update MDp X n XX0'"
proof (cases "done MDp = 0")
  case False
  then show ?thesis by (simp add: MD4Update_done)
next
  case unfinished: True
  show ?thesis
  proof (cases "add_count n 0 (count MDp)")
    case None
    then show ?thesis using unfinished by (simp add: MD4Update_def)
  next
    case (Some c)
    consider "n = 512" | "512 < n" | "n < 512" "n = 0 \<or> X \<noteq> None" | "n < 512" "n \<noteq> 0" "X = None"
      by (metis linorder_neqE)
    then show ?thesis
    proof cases
      case 1
      then show ?thesis using unfinished Some by (simp add: MD4Update_def)
    next
      case 2
      then show ?thesis using unfinished Some by (simp add: MD4Update_illegal)
    next
      case 3
      then obtain x where "n = 0 \<or> X = Some x" by auto
      with 3 unfinished Some show ?thesis by (simp add: MD4Update_partial)
    next
      case 4
      then show ?thesis using unfinished Some by (simp add: MD4Update_null)
    qed
  qed
qed

lemma loop_scratch: "md4_update_loop MDp data mdlen XX0 = md4_update_loop MDp data mdlen XX0'"
proof (induction MDp data mdlen XX0 rule: md4_update_loop.induct)
  case (1 MDp data mdlen XX0)
  show ?case
  proof (cases "512 <s mdlen")
    case True
    have "md4_update_loop MDp' (ptr_add data 64) (mdlen - 512) XX0
        = md4_update_loop MDp' (ptr_add data 64) (mdlen - 512) XX0'"
      if "MD4Update MDp data 512 XX0 = Inr (MDp', out)" for MDp' out
      using "1.IH" [OF True that refl] .
    then have "then_do (MD4Update MDp data 512 XX0)
                 (\<lambda>MDp'. md4_update_loop MDp' (ptr_add data 64) (mdlen - 512) XX0)
        = then_do (MD4Update MDp data 512 XX0)
                 (\<lambda>MDp'. md4_update_loop MDp' (ptr_add data 64) (mdlen - 512) XX0')"
      by (auto simp: then_do_def split: sum.splits)
    then show ?thesis
      using True MD4Update_scratch [of MDp data 512 XX0 XX0']
      by (subst (1 2) md4_update_loop_then_do) simp
  next
    case False
    then show ?thesis
      using MD4Update_scratch [of MDp data mdlen XX0 XX0']
      by (subst (1 2) md4_update_loop_then_do) simp
  qed
qed


lemma partial_block_cong:
  assumes "\<And>i. i < k \<Longrightarrow> x i = x' i"
  shows "spec_partial_block x (8 * k) = spec_partial_block x' (8 * k)"
  unfolding spec_partial_block_def
  by (rule map_cong) (auto simp: assms pad_byte0)

lemma MD4Update_cong:
  assumes agree: "\<And>i. i < k \<Longrightarrow> x i = x' i" and k: "k \<le> 64"
  shows "MD4Update MDp (Some x) (of_nat (8 * k)) XX0 = MD4Update MDp (Some x') (of_nat (8 * k)) XX0"
proof (cases "done MDp = 0")
  case False
  then show ?thesis by (simp add: MD4Update_done)
next
  case unfinished: True
  let ?n = "of_nat (8 * k) :: u32"
  have un: "unat ?n = 8 * k" using k by (intro unat_of_nat_bits) simp
  show ?thesis
  proof (cases "add_count ?n 0 (count MDp)")
    case None
    then show ?thesis using unfinished by (simp add: MD4Update_def)
  next
    case (Some c)
    show ?thesis
    proof (cases "k = 64")
      case True
      then have n: "?n = 512" by simp
      have "MDblock (MDp\<lparr>count := c\<rparr>) x = MDblock (MDp\<lparr>count := c\<rparr>) x'"
        using agree True by (intro MDblock_cong) simp
      then show ?thesis
        using unfinished Some MD4Update_full [of MDp c] by (simp only: n)
    next
      case False
      with k have "k < 64" by simp
      then have lt: "?n < 512" using un by (simp only: word_less_nat_alt) simp
      have e: "spec_partial_block x (8 * k) = spec_partial_block x' (8 * k)"
        by (rule partial_block_cong) (rule agree)
      have t: "spec_terminal (MDp\<lparr>count := c\<rparr>) x (unat ?n)
             = spec_terminal (MDp\<lparr>count := c\<rparr>) x' (unat ?n)"
        by (simp only: un spec_terminal_def e)
      have "MD4Update MDp (Some x) ?n XX0 = Inr (spec_terminal (MDp\<lparr>count := c\<rparr>) x (unat ?n), [])"
        by (rule MD4Update_partial [OF unfinished lt Some]) simp
      moreover
      have "MD4Update MDp (Some x') ?n XX0 = Inr (spec_terminal (MDp\<lparr>count := c\<rparr>) x' (unat ?n), [])"
        by (rule MD4Update_partial [OF unfinished lt Some]) simp
      ultimately show ?thesis by (simp only: t)
    qed
  qed
qed

lemma ptr_add_Some [simp]: "ptr_add (Some x) k = Some (\<lambda>i. x (i + k))"
  by (simp add: ptr_add_def)

lemma then_do_cong:
  assumes "r = r'" and "\<And>a out. r' = Inr (a, out) \<Longrightarrow> k a = k' a"
  shows "then_do r k = then_do r' k'"
  using assms by (auto simp: then_do_def split: sum.splits)

lemma loop_cong:
  assumes "\<And>i. i < K \<Longrightarrow> x i = x' i" and "K < 2 ^ 28"
  shows "md4_update_loop MDp (Some x) (of_nat (8 * K)) XX0
       = md4_update_loop MDp (Some x') (of_nat (8 * K)) XX0"
  using assms
proof (induction K arbitrary: MDp x x' rule: less_induct)
  case (less K)
  have N: "8 * K < 2 ^ 31" using less.prems(2) by simp
  show ?case
  proof (cases "64 < K")
    case True
    have first: "MD4Update MDp (Some x) 512 XX0 = MD4Update MDp (Some x') 512 XX0"
      using MD4Update_cong [of 64 x x' MDp XX0] less.prems(1) True by simp
    have rest: "md4_update_loop M' (Some (\<lambda>i. x (i + 64))) (of_nat (8 * (K - 64))) XX0
        = md4_update_loop M' (Some (\<lambda>i. x' (i + 64))) (of_nat (8 * (K - 64))) XX0" for M'
      using True less.prems by (intro less.IH) auto
    have e: "8 * K - 512 = 8 * (K - 64)" by simp
    show ?thesis
      using True first rest
      by (simp only: loop_nat [OF N] e ptr_add_Some) simp
  next
    case False
    then have "K \<le> 64" by simp
    then show ?thesis
      using False MD4Update_cong [of K x x' MDp XX0] less.prems(1)
      by (simp only: loop_nat [OF N]) simp
  qed
qed

lemma loop_split:
  assumes "1 \<le> k" and "1 \<le> b" and "64 * k + b < 2 ^ 28"
  shows "md4_update_loop MDp (Some x) (of_nat (8 * (64 * k + b))) XX0
       = then_do (md4_update_loop MDp (Some x) (of_nat (8 * (64 * k))) XX0)
           (\<lambda>MDp'. md4_update_loop MDp' (Some (\<lambda>i. x (i + 64 * k))) (of_nat (8 * b)) XX0)"
  using assms
proof (induction k arbitrary: MDp x rule: nat_induct_at_least)
  case base
  have N1: "8 * (64 * 1 + b) < 2 ^ 31" using base by simp
  have N2: "8 * (64 * 1) < (2::nat) ^ 31" by simp
  have e: "8 * (64 * 1 + b) - 512 = 8 * b" by simp
  show ?case
    using base(1)
    by (simp only: loop_nat [OF N1] loop_nat [OF N2] e ptr_add_Some) simp
next
  case (Suc k)
  have N1: "8 * (64 * Suc k + b) < 2 ^ 31" using Suc.prems by simp
  have N2: "8 * (64 * Suc k) < (2::nat) ^ 31" using Suc.prems by simp
  have e1: "8 * (64 * Suc k + b) - 512 = 8 * (64 * k + b)" by simp
  have e2: "8 * (64 * Suc k) - 512 = 8 * (64 * k)" by simp
  have g1: "512 < 8 * (64 * Suc k + b)" using Suc.hyps by simp
  have g2: "512 < 8 * (64 * Suc k)" using Suc.hyps by simp
  have p: "(\<lambda>i. x (i + 64 * k + 64)) = (\<lambda>i. x (i + 64 * Suc k))"
    by (simp add: add.commute add.left_commute)
  have lt: "64 * k + b < 2 ^ 28" using Suc.prems by simp
  have IH: "md4_update_loop M' (Some (\<lambda>i. x (i + 64))) (of_nat (8 * (64 * k + b))) XX0
       = then_do (md4_update_loop M' (Some (\<lambda>i. x (i + 64))) (of_nat (8 * (64 * k))) XX0)
           (\<lambda>MDp'. md4_update_loop MDp' (Some (\<lambda>i. x (i + 64 * Suc k))) (of_nat (8 * b)) XX0)" for M'
    using Suc.IH [OF Suc.prems(1) lt, of M' "\<lambda>i. x (i + 64)"] unfolding p .
  show ?case
    using g1 g2
    by (simp only: loop_nat [OF N1] loop_nat [OF N2] e1 e2 ptr_add_Some IH then_do_assoc if_True)
qed


lemma feed_ctx_buf:
  "feed_ctx MDp (buf_ptr M rest, of_nat (length M), XX0)
     = md4_update_loop MDp (Some (\<lambda>i. if i < length M then M ! i else rest i))
         (of_nat (8 * length M)) XX0"
  by (simp only: feed_ctx_def buf_ptr_def mdlen_of_len prod.case)

lemma feed_ctx_indep:
  assumes "length M < 2 ^ 28"
  shows "feed_ctx MDp (buf_ptr M rest, of_nat (length M), XX0)
       = feed_ctx MDp (buf_ptr M rest', of_nat (length M), XX0')"
proof -
  have "md4_update_loop MDp (Some (\<lambda>i. if i < length M then M ! i else rest i)) (of_nat (8 * length M)) XX0
      = md4_update_loop MDp (Some (\<lambda>i. if i < length M then M ! i else rest' i)) (of_nat (8 * length M)) XX0"
    using assms by (intro loop_cong) simp_all
  also have "\<dots> = md4_update_loop MDp (Some (\<lambda>i. if i < length M then M ! i else rest' i)) (of_nat (8 * length M)) XX0'"
    by (rule loop_scratch)
  finally show ?thesis by (simp only: feed_ctx_buf)
qed

lemma finish_ctx_done:
  "done MDp \<noteq> 0 \<Longrightarrow>
     finish_ctx MDp XX0 = Inr (concat (map (\<lambda>i. emit_word 4 (buffer MDp ! i)) [0..<4]), [])"
  by (simp add: finish_ctx_def MD4Final_done)

lemma zero_feed_finish:
  "then_do (MD4Update MDp X 0 XX0) (\<lambda>MDp'. finish_ctx MDp' XX1) = finish_ctx MDp XX1"
proof (cases "done MDp = 0")
  case True
  then show ?thesis
    by (simp add: MD4Update_zero finish_ctx_done) (simp add: finish_ctx_def MD4Final_def MD4Update_zero)
next
  case False
  then show ?thesis by (simp add: MD4Update_done)
qed

lemma zero_len_feed_finish:
  "then_do (feed_ctx MDp (buf_ptr [] rest, 0, XX0)) (\<lambda>MDp'. finish_ctx MDp' XX1) = finish_ctx MDp XX1"
proof -
  have "feed_ctx MDp (buf_ptr [] rest, 0, XX0) = MD4Update MDp (buf_ptr [] rest) 0 XX0"
    by (simp add: feed_ctx_def md4_update_loop_small)
  then show ?thesis by (simp only: zero_feed_finish)
qed

lemma chunks_eq:
  assumes "\<forall>c\<in>set (butlast chunks). 0 < length (fst c) \<and> length (fst c) mod 64 = 0"
    and "length (concat (map fst chunks)) < 2 ^ 28"
  shows "then_do (feeds_ctx MDp (map (\<lambda>(M, rest, XX). (buf_ptr M rest, of_nat (length M), XX)) chunks))
                 (\<lambda>MDp'. finish_ctx MDp' XX1)
       = then_do (feed_ctx MDp (buf_ptr (concat (map fst chunks)) rest',
                                 of_nat (length (concat (map fst chunks))), XX'))
                 (\<lambda>MDp'. finish_ctx MDp' XX1)"
  using assms
proof (induction chunks arbitrary: MDp rest' XX')
  case Nil
  show ?case by (simp add: zero_len_feed_finish)
next
  case (Cons c cs)
  obtain M1 r1 X1 where c: "c = (M1, r1, X1)" by (cases c)
  let ?T = "concat (map fst cs)"
  let ?fin = "\<lambda>MDp'. finish_ctx MDp' XX1"
  have tot: "length M1 + length ?T < 2 ^ 28" using Cons.prems(2) by (simp add: c)
  show ?case
  proof (cases "cs = []")
    case True
    have "length M1 < 2 ^ 28" using tot by simp
    from feed_ctx_indep [OF this, of MDp r1 X1 rest' XX']
    show ?thesis by (simp add: True c)
  next
    case False
    then have al: "0 < length M1" "length M1 mod 64 = 0"
      using Cons.prems(1) by (simp_all add: c)
    then have "length M1 = 64 * (length M1 div 64)" "1 \<le> length M1 div 64"
      by presburger+
    then obtain k where k: "length M1 = 64 * k" "1 \<le> k"
      by blast
    have bl: "\<forall>c\<in>set (butlast cs). 0 < length (fst c) \<and> length (fst c) mod 64 = 0"
      using Cons.prems(1) False by simp
    have lT: "length ?T < 2 ^ 28" using tot by simp
    have IH: "then_do (feeds_ctx M' (map (\<lambda>(M, rest, XX). (buf_ptr M rest, of_nat (length M), XX)) cs)) ?fin
        = then_do (feed_ctx M' (buf_ptr ?T rest', of_nat (length ?T), XX')) ?fin" for M'
      using Cons.IH [OF bl, of M' rest' XX'] lT by simp
    have lhs: "then_do (feeds_ctx MDp (map (\<lambda>(M, rest, XX). (buf_ptr M rest, of_nat (length M), XX)) (c # cs))) ?fin
        = then_do (feed_ctx MDp (buf_ptr M1 r1, of_nat (length M1), X1))
            (\<lambda>M'. then_do (feed_ctx M' (buf_ptr ?T rest', of_nat (length ?T), XX')) ?fin)"
      by (simp add: c then_do_assoc IH)
    let ?xs = "\<lambda>i. if i < length (M1 @ ?T) then (M1 @ ?T) ! i else rest' i"
    let ?x1 = "\<lambda>i. if i < length M1 then M1 ! i else r1 i"
    let ?xT = "\<lambda>i. if i < length ?T then ?T ! i else rest' i"
    have first: "md4_update_loop MDp (Some ?xs) (of_nat (8 * length M1)) XX'
        = feed_ctx MDp (buf_ptr M1 r1, of_nat (length M1), X1)"
    proof -
      have "md4_update_loop MDp (Some ?xs) (of_nat (8 * length M1)) XX'
          = md4_update_loop MDp (Some ?x1) (of_nat (8 * length M1)) XX'"
        using tot by (intro loop_cong) (simp_all add: nth_append)
      also have "\<dots> = md4_update_loop MDp (Some ?x1) (of_nat (8 * length M1)) X1"
        by (rule loop_scratch)
      finally show ?thesis by (simp only: feed_ctx_buf)
    qed
    have rhs0: "feed_ctx MDp (buf_ptr (concat (map fst (c # cs))) rest',
                  of_nat (length (concat (map fst (c # cs)))), XX')
        = md4_update_loop MDp (Some ?xs) (of_nat (8 * (length M1 + length ?T))) XX'"
      using feed_ctx_buf [of MDp "M1 @ ?T" rest' XX'] by (simp add: c)
    show ?thesis
    proof (cases "length ?T = 0")
      case True
      then have T: "?T = []" by simp
      have "then_do (feed_ctx M' (buf_ptr ?T rest', of_nat (length ?T), XX')) ?fin = ?fin M'" for M'
        using zero_len_feed_finish [of M' rest' XX' XX1] by (simp add: T)
      then show ?thesis
        using first by (simp only: lhs rhs0 True add_0_right)
    next
      case False
      then have b: "1 \<le> length ?T" by linarith
      have second: "md4_update_loop M' (Some (\<lambda>i. ?xs (i + 64 * k))) (of_nat (8 * length ?T)) XX'
          = feed_ctx M' (buf_ptr ?T rest', of_nat (length ?T), XX')" for M'
      proof -
        have "md4_update_loop M' (Some (\<lambda>i. ?xs (i + 64 * k))) (of_nat (8 * length ?T)) XX'
            = md4_update_loop M' (Some ?xT) (of_nat (8 * length ?T)) XX'"
          using lT k(1) by (intro loop_cong) (simp_all add: nth_append)
        then show ?thesis by (simp only: feed_ctx_buf)
      qed
      have "md4_update_loop MDp (Some ?xs) (of_nat (8 * (64 * k + length ?T))) XX'
          = then_do (md4_update_loop MDp (Some ?xs) (of_nat (8 * (64 * k))) XX')
              (\<lambda>M'. md4_update_loop M' (Some (\<lambda>i. ?xs (i + 64 * k))) (of_nat (8 * length ?T)) XX')"
        using tot k by (intro loop_split [OF k(2) b]) simp
      then show ?thesis
        using first by (simp only: lhs rhs0 k(1) second then_do_assoc)
    qed
  qed
qed


lemma loop_ok:
  assumes "done MDp = 0" and "length (count MDp) = 8"
    and "count_value (count MDp) + 8 * K < 2 ^ 64" and "K < 2 ^ 28"
  shows "\<exists>M'. md4_update_loop MDp (Some x) (of_nat (8 * K)) XX0 = Inr (M', [])"
  using assms
proof (induction K arbitrary: MDp x rule: less_induct)
  case (less K)
  have N: "8 * K < 2 ^ 31" using less.prems(4) by simp
  show ?case
  proof (cases "64 < K")
    case True
    have "count_value (count MDp) + unat (512 :: u32) < 2 ^ 64"
      using less.prems(3) True by simp
    from add_count_total [OF less.prems(2) _ this]
    obtain c where c: "add_count 512 0 (count MDp) = Some c" "length c = 8"
      "count_value c = count_value (count MDp) + 512" by auto
    let ?M1 = "MDblock (MDp\<lparr>count := c\<rparr>) x"
    have u: "MD4Update MDp (Some x) 512 XX0 = Inr (?M1, [])"
      using less.prems(1) c(1) by (rule MD4Update_full)
    have "\<exists>M'. md4_update_loop ?M1 (Some (\<lambda>i. x (i + 64))) (of_nat (8 * (K - 64))) XX0 = Inr (M', [])"
      using True less.prems c by (intro less.IH) simp_all
    moreover have e: "8 * K - 512 = 8 * (K - 64)" by simp
    ultimately show ?thesis
      using True by (simp only: loop_nat [OF N] e ptr_add_Some u) auto
  next
    case False
    let ?n = "of_nat (8 * K) :: u32"
    have un: "unat ?n = 8 * K" using less.prems(4) by (rule unat_of_nat_bits)
    have "unat ?n + 255 < 2 ^ 32" using False by (simp only: un) simp
    moreover have "count_value (count MDp) + unat ?n < 2 ^ 64"
      using less.prems(3) by (simp only: un)
    ultimately obtain c where c: "add_count ?n 0 (count MDp) = Some c"
      using add_count_total [OF less.prems(2), of ?n] by blast
    have "\<exists>M'. MD4Update MDp (Some x) ?n XX0 = Inr (M', [])"
    proof (cases "K = 64")
      case True
      then have "?n = 512" by simp
      with c MD4Update_full [OF less.prems(1), of c x XX0] show ?thesis by simp
    next
      case K: False
      with False have "8 * K < 512" by simp
      then have lt: "?n < 512" by (simp only: word_less_nat_alt un) simp
      from MD4Update_partial [OF less.prems(1) lt c, of "Some x" x XX0] show ?thesis by simp
    qed
    then show ?thesis
      using False by (simp only: loop_nat [OF N]) simp
  qed
qed

lemma finish_ctx_ok: "\<exists>d. finish_ctx MDp XX0 = Inr (d, []) \<and> length d = 16"
proof -
  obtain MD' where "MD4Update MDp None 0 XX0 = Inr (MD', [])"
    using MD4Update_zero_done by blast
  then show ?thesis by (simp add: finish_ctx_def MD4Final_def upt4)
qed

lemma finish_ctx_scratch: "finish_ctx MDp XX0 = finish_ctx MDp XX0'"
  using MD4Update_scratch [of MDp None 0 XX0 XX0'] by (simp add: finish_ctx_def MD4Final_def)

lemma md4_run_single_ok:
  assumes "length M < 2 ^ 28"
  shows "\<exists>d. md4_run [(buf_ptr M rest, of_nat (length M), XX0)] XX1 = Inr (d, []) \<and> length d = 16"
proof -
  have "count_value (replicate 8 (0::byte)) = 0" by (simp add: replicate8)
  then obtain M' where
    "md4_update_loop (MD4Init calloc_MD4_CTX) (Some (\<lambda>i. if i < length M then M ! i else rest i))
        (of_nat (8 * length M)) XX0 = Inr (M', [])"
    using loop_ok [of "MD4Init calloc_MD4_CTX" "length M" _ XX0] assms
    by (auto simp: MD4Init_calloc)
  then have "md4_run [(buf_ptr M rest, of_nat (length M), XX0)] XX1 = finish_ctx M' XX1"
    by (simp add: md4_run_ctx feed_ctx_buf del: of_nat_mult)
  then show ?thesis using finish_ctx_ok [of M' XX1] by simp
qed

lemma feed_ctx_short_aux:
  assumes "length M \<le> 55"
  shows "feed_ctx (MD4Init calloc_MD4_CTX) (buf_ptr M rest, of_nat (length M), XX0)
       = Inr ((MDblock \<lparr>buffer = [I0, I1, I2, I3], count = spec_le_bytes 8 (8 * length M), done = 0\<rparr>
                       ((!) (M @ 0x80 # replicate (55 - length M) 0 @ spec_le_bytes 8 (8 * length M))))\<lparr>done := 1\<rparr>, [])"
proof -
  let ?M0 = "\<lparr>buffer = [I0, I1, I2, I3], count = replicate 8 0, done = 0\<rparr>"
  have cv: "count_value (replicate 8 (0::byte)) = 0" by (simp add: replicate8)
  have "md4_update_loop ?M0 (buf_ptr M rest) (of_nat (8 * length M)) XX0
      = Inr (spec_terminal (?M0\<lparr>count := spec_le_bytes 8 (8 * length M)\<rparr>)
                (\<lambda>i. if i < length M then M ! i else rest i) (8 * length M), [])"
    using feed_short [of M ?M0 rest XX0] assms by (simp add: cv)
  then show ?thesis
    using assms
    by (simp add: feed_ctx_def mdlen_of_len MD4Init_calloc terminal_one_block del: of_nat_mult)
qed

lemma feed_ctx_short:
  assumes "length M = len" and "len \<le> 55"
  shows "feed_ctx (MD4Init calloc_MD4_CTX) (buf_ptr M rest, of_nat len, XX0)
       = Inr ((MDblock \<lparr>buffer = [I0, I1, I2, I3], count = spec_le_bytes 8 (8 * len), done = 0\<rparr>
                       ((!) (M @ 0x80 # replicate (55 - len) 0 @ spec_le_bytes 8 (8 * len))))\<lparr>done := 1\<rparr>, [])"
  using feed_ctx_short_aux [of M rest XX0] assms by (simp del: of_nat_mult)

section \<open>Finished contexts\<close>

text \<open>
  C8: a zero-bit call on a finished context changes nothing, no call of the engine or of
  the adapter's feed changes a finished context, and a second finish returns the digest of
  the first.
\<close>

theorem finish_idempotent:
  "(done MDp \<noteq> 0 \<longrightarrow>
      MD4Update MDp X 0 XX0 = Inr (MDp, [])
      \<and> (\<exists>out. MD4Update MDp X n XX1 = Inr (MDp, out))
      \<and> (\<exists>out. md4_update (c\<lparr>priv := Some MDp\<rparr>) data len XX2 = Inr (1, c\<lparr>priv := Some MDp\<rparr>, out)))
   \<and> (md4_final ctx XX3 = Inr (r, buf, ctx', out1) \<longrightarrow>
        md4_final ctx' XX4 = Inr (1, buf, ctx', []))"
proof (intro conjI impI)
  assume fin: "done MDp \<noteq> 0"
  show "MD4Update MDp X 0 XX0 = Inr (MDp, [])"
    using fin by (simp add: MD4Update_done)
  show "\<exists>out. MD4Update MDp X n XX1 = Inr (MDp, out)"
    using fin by (simp add: MD4Update_done)
  show "\<exists>out. md4_update (c\<lparr>priv := Some MDp\<rparr>) data len XX2 = Inr (1, c\<lparr>priv := Some MDp\<rparr>, out)"
    using md4_update_loop_done [OF fin, of data "ucast (len * 8)" XX2]
    by (auto simp: md4_update_def)
next
  assume a: "md4_final ctx XX3 = Inr (r, buf, ctx', out1)"
  then obtain MD where p: "priv ctx = Some MD"
    by (auto simp: md4_final_def split: option.splits)
  obtain MD' where u: "MD4Update MD None 0 XX3 = Inr (MD', [])" and d: "done MD' \<noteq> 0"
    using MD4Update_zero_done by blast
  from a p u have r: "ctx' = ctx\<lparr>priv := Some MD'\<rparr>"
    "buf = concat (map (\<lambda>i. emit_word 4 (buffer MD' ! i)) [0..<4])"
    by (auto simp: md4_final_def MD4Final_def)
  show "md4_final ctx' XX4 = Inr (1, buf, ctx', [])"
    using d by (simp add: r md4_final_def MD4Final_done)
qed

theorem finish_idempotent_witness:
  "done \<lparr>buffer = [0xe0cfd631, 0x31e96ad1, 0xd7593cb7, 0xc089c0e0], count = replicate 8 0, done = 1\<rparr> \<noteq> 0
   \<and> MD4Update \<lparr>buffer = [0xe0cfd631, 0x31e96ad1, 0xd7593cb7, 0xc089c0e0], count = replicate 8 0, done = 1\<rparr>
         None 0 (\<lambda>_. 0)
       = Inr (\<lparr>buffer = [0xe0cfd631, 0x31e96ad1, 0xd7593cb7, 0xc089c0e0], count = replicate 8 0, done = 1\<rparr>, [])
   \<and> md4_final \<lparr>priv = Some (MD4Init calloc_MD4_CTX)\<rparr> (\<lambda>_. 0)
       = Inr (1, [0x31, 0xd6, 0xcf, 0xe0, 0xd1, 0x6a, 0xe9, 0x31, 0xb7, 0x3c, 0x59, 0xd7, 0xe0, 0xc0, 0x89, 0xc0],
              \<lparr>priv = Some \<lparr>buffer = [0xe0cfd631, 0x31e96ad1, 0xd7593cb7, 0xc089c0e0], count = replicate 8 0, done = 1\<rparr>\<rparr>, [])
   \<and> md4_final \<lparr>priv = Some \<lparr>buffer = [0xe0cfd631, 0x31e96ad1, 0xd7593cb7, 0xc089c0e0], count = replicate 8 0, done = 1\<rparr>\<rparr> (\<lambda>_. 1)
       = Inr (1, [0x31, 0xd6, 0xcf, 0xe0, 0xd1, 0x6a, 0xe9, 0x31, 0xb7, 0x3c, 0x59, 0xd7, 0xe0, 0xc0, 0x89, 0xc0],
              \<lparr>priv = Some \<lparr>buffer = [0xe0cfd631, 0x31e96ad1, 0xd7593cb7, 0xc089c0e0], count = replicate 8 0, done = 1\<rparr>\<rparr>, [])"
proof -
  let ?fin = "\<lparr>buffer = [0xe0cfd631, 0x31e96ad1, 0xd7593cb7, 0xc089c0e0], count = replicate 8 0, done = (1::u32)\<rparr>"
  let ?d = "[0x31, 0xd6, 0xcf, 0xe0, 0xd1, 0x6a, 0xe9, 0x31, 0xb7, 0x3c, 0x59, 0xd7, 0xe0, 0xc0, 0x89, 0xc0] :: byte list"
  have f1: "md4_final \<lparr>priv = Some (MD4Init calloc_MD4_CTX)\<rparr> (\<lambda>_. 0) = Inr (1, ?d, \<lparr>priv = Some ?fin\<rparr>, [])"
    by (simp add: md4_final_def MD4Final_def MD4Update_empty upt4 emit_word4)
  show ?thesis
    using f1 finish_idempotent [of ?fin None "\<lambda>_. 0" 0 "\<lambda>_. 0" "\<lparr>priv = None\<rparr>" None 0 "\<lambda>_. 0"
        "\<lparr>priv = Some (MD4Init calloc_MD4_CTX)\<rparr>" "\<lambda>_. 0" 1 ?d "\<lparr>priv = Some ?fin\<rparr>" "[]" "\<lambda>_. 1"]
    by simp
qed

section \<open>Zero-bit feed and digest extraction\<close>

text \<open>
  C10: a zero-bit feed on an unfinished context reads nothing through the data pointer, so
  it succeeds with NULL and with any other pointer alike, and whatever the scratch array
  held: the block it compresses is 0x80, 55 zero bytes and the 8 count bytes.
\<close>

theorem zero_bit_feed_reads_nothing:
  assumes "done MDp = 0"
  shows "copy_X None 0 (unat (drop_bit 3 (0::u32))) XX0 = Inr XX0
    \<and> map (put_count MDp (pad_XX 0 0 XX0)) [0..<64]
          = 0x80 # replicate 55 0 @ spec_count_field (count MDp)
    \<and> MD4Update MDp X 0 XX0
          = Inr ((MDblock MDp ((!) (0x80 # replicate 55 0 @ spec_count_field (count MDp))))\<lparr>done := 1\<rparr>, [])
    \<and> MD4Update MDp None 0 XX0 = MD4Update MDp X 0 XX1
    \<and> (\<exists>buf MD'. MD4Final MDp XX0 = Inr (buf, MD', []))"
  using assms
  by (simp add: copy_X_zero zero_bit_block MD4Update_zero MD4Final_def)

theorem zero_bit_feed_reads_nothing_witness:
  "done (MD4Init calloc_MD4_CTX) = 0
   \<and> MD4Update (MD4Init calloc_MD4_CTX) None 0 (\<lambda>_. 0xAA)
       = Inr ((MDblock (MD4Init calloc_MD4_CTX) ((!) (0x80 # replicate 55 0 @ replicate 8 0)))\<lparr>done := 1\<rparr>, [])
   \<and> MD4Update (MD4Init calloc_MD4_CTX) None 0 (\<lambda>_. 0xAA)
       = MD4Update (MD4Init calloc_MD4_CTX) None 0 (\<lambda>_. 0)"
  using zero_bit_feed_reads_nothing [of "MD4Init calloc_MD4_CTX" "\<lambda>_. 0xAA" None "\<lambda>_. 0"]
  by (simp add: MD4Init_calloc spec_count_field_id MD4Update_zero)

text \<open>
  C5: finish issues the zero-bit feed (nothing on a finished context, the padding block
  otherwise) and writes the four state words, least significant byte first: 16 bytes,
  return value 1, no fault and nothing printed, for every context \<^verbatim>\<open>create\<close> or a feed
  left behind.
\<close>

theorem finish_emits_state:
  "(\<exists>MD'. MD' = (if done MD \<noteq> 0 then MD
                 else (MDblock MD ((!) (0x80 # replicate 55 0 @ spec_count_field (count MD))))\<lparr>done := 1\<rparr>)
       \<and> MD4Update MD None 0 XX0 = Inr (MD', [])
       \<and> md4_final (c\<lparr>priv := Some MD\<rparr>) XX0
           = Inr (1, concat (map (\<lambda>i. spec_le_bytes 4 (unat (buffer MD' ! i))) [0, 1, 2, 3]),
                  c\<lparr>priv := Some MD'\<rparr>, [])
       \<and> length (concat (map (\<lambda>i. spec_le_bytes 4 (unat (buffer MD' ! i))) [0, 1, 2, 3])) = 16)
   \<and> (\<exists>ctx. md4_init (Some c) True = (1, Some ctx) \<and> priv ctx \<noteq> None)
   \<and> (md4_update ctx data len XX1 = Inr (r, ctx', out) \<longrightarrow>
        (\<exists>buf ctx''. md4_final ctx' XX2 = Inr (1, buf, ctx'', []) \<and> length buf = 16))"
proof (intro conjI impI)
  let ?MD' = "if done MD \<noteq> 0 then MD
      else (MDblock MD ((!) (0x80 # replicate 55 0 @ spec_count_field (count MD))))\<lparr>done := 1\<rparr>"
  have u: "MD4Update MD None 0 XX0 = Inr (?MD', [])"
    by (simp add: MD4Update_done MD4Update_zero)
  have l: "length (concat (map (\<lambda>i. spec_le_bytes 4 (unat (buffer ?MD' ! i))) [0, 1, 2, 3])) = 16"
    by (simp flip: emit_word_spec)
  have "md4_final (c\<lparr>priv := Some MD\<rparr>) XX0
      = Inr (1, concat (map (\<lambda>i. spec_le_bytes 4 (unat (buffer ?MD' ! i))) [0, 1, 2, 3]),
             c\<lparr>priv := Some ?MD'\<rparr>, [])"
    by (cases "done MD = 0")
       (simp_all add: md4_final_def MD4Final_def MD4Update_done MD4Update_zero upt4 emit_word_spec)
  with u l show "\<exists>MD'. MD' = ?MD' \<and> MD4Update MD None 0 XX0 = Inr (MD', [])
       \<and> md4_final (c\<lparr>priv := Some MD\<rparr>) XX0
           = Inr (1, concat (map (\<lambda>i. spec_le_bytes 4 (unat (buffer MD' ! i))) [0, 1, 2, 3]),
                  c\<lparr>priv := Some MD'\<rparr>, [])
       \<and> length (concat (map (\<lambda>i. spec_le_bytes 4 (unat (buffer MD' ! i))) [0, 1, 2, 3])) = 16"
    by blast
next
  show "\<exists>ctx. md4_init (Some c) True = (1, Some ctx) \<and> priv ctx \<noteq> None"
    by (simp add: md4_init_def)
next
  assume "md4_update ctx data len XX1 = Inr (r, ctx', out)"
  then obtain M where p: "priv ctx' = Some M"
    by (auto simp: md4_update_def split: option.splits sum.splits)
  obtain M' where u: "MD4Update M None 0 XX2 = Inr (M', [])"
    using MD4Update_zero_done by blast
  show "\<exists>buf ctx''. md4_final ctx' XX2 = Inr (1, buf, ctx'', []) \<and> length buf = 16"
    by (simp add: md4_final_def MD4Final_def p u upt4)
qed

theorem finish_emits_state_witness:
  "md4_update \<lparr>priv = Some (MD4Init calloc_MD4_CTX)\<rparr> None 0 (\<lambda>_. 0)
     = Inr (1, \<lparr>priv = Some \<lparr>buffer = [0xe0cfd631, 0x31e96ad1, 0xd7593cb7, 0xc089c0e0],
                                 count = replicate 8 0, done = 1\<rparr>\<rparr>, [])
   \<and> (\<exists>buf ctx''. md4_final \<lparr>priv = Some \<lparr>buffer = [0xe0cfd631, 0x31e96ad1, 0xd7593cb7, 0xc089c0e0],
                                 count = replicate 8 0, done = 1\<rparr>\<rparr> (\<lambda>_. 0) = Inr (1, buf, ctx'', [])
          \<and> length buf = 16)"
proof -
  let ?fin = "\<lparr>buffer = [0xe0cfd631, 0x31e96ad1, 0xd7593cb7, 0xc089c0e0], count = replicate 8 0, done = (1::u32)\<rparr>"
  have u: "md4_update \<lparr>priv = Some (MD4Init calloc_MD4_CTX)\<rparr> None 0 (\<lambda>_. 0)
     = Inr (1, \<lparr>priv = Some ?fin\<rparr>, [])"
    by (simp add: md4_update_def md4_update_loop_small MD4Update_empty)
  show ?thesis
    using u finish_emits_state [of "MD4Init calloc_MD4_CTX" "\<lambda>_. 0" "\<lparr>priv = None\<rparr>"
        "\<lparr>priv = Some (MD4Init calloc_MD4_CTX)\<rparr>" None 0 "\<lambda>_. 0" 1 "\<lparr>priv = Some ?fin\<rparr>" "[]" "\<lambda>_. 0"]
    by simp
qed


section \<open>Misuse: feeding a finished context, illegal bit counts\<close>

text \<open>
  C7, as the code has it: a feed with a nonzero bit count on a finished context prints the
  line "MD4Update MD already done" and returns; the engine has no return value and the
  adapter's feed returns 1 as for every other call.  The context is unchanged.
\<close>

theorem feed_after_finish_logged:
  assumes "done MDp \<noteq> 0" and "n \<noteq> 0"
  shows "MD4Update MDp X n XX0 = Inr (MDp, [AlreadyDone])
    \<and> (\<exists>out. md4_update (c\<lparr>priv := Some MDp\<rparr>) data len XX1
                 = Inr (1, c\<lparr>priv := Some MDp\<rparr>, out) \<and> set out \<subseteq> {AlreadyDone})"
  using assms md4_update_loop_done [of MDp data "ucast (len * 8)" XX1]
  by (auto simp: MD4Update_done md4_update_def)

theorem feed_after_finish_logged_witness:
  "done \<lparr>buffer = [0xe0cfd631, 0x31e96ad1, 0xd7593cb7, 0xc089c0e0], count = replicate 8 0, done = 1\<rparr> \<noteq> 0
   \<and> (8::u32) \<noteq> 0
   \<and> MD4Update \<lparr>buffer = [0xe0cfd631, 0x31e96ad1, 0xd7593cb7, 0xc089c0e0], count = replicate 8 0, done = 1\<rparr>
         (Some (\<lambda>_. 0x61)) 8 (\<lambda>_. 0)
       = Inr (\<lparr>buffer = [0xe0cfd631, 0x31e96ad1, 0xd7593cb7, 0xc089c0e0], count = replicate 8 0, done = 1\<rparr>,
              [AlreadyDone])"
  using feed_after_finish_logged
    [of "\<lparr>buffer = [0xe0cfd631, 0x31e96ad1, 0xd7593cb7, 0xc089c0e0], count = replicate 8 0, done = 1\<rparr>"
        8 "Some (\<lambda>_. 0x61)" "\<lambda>_. 0" "\<lparr>priv = None\<rparr>" None 0 "\<lambda>_. 0"]
  by simp

text \<open>
  The claim C7 as stated fails: one byte fed to the context left by finishing the empty
  message makes the adapter's feed return 1, the value of success, with the line on stdout
  as only trace.
\<close>

theorem feed_after_finish_counterexample:
  "md4_update \<lparr>priv = Some \<lparr>buffer = [0xe0cfd631, 0x31e96ad1, 0xd7593cb7, 0xc089c0e0],
                                count = replicate 8 0, done = 1\<rparr>\<rparr>
              (Some (\<lambda>_. 0x61)) 1 (\<lambda>_. 0)
     = Inr (1, \<lparr>priv = Some \<lparr>buffer = [0xe0cfd631, 0x31e96ad1, 0xd7593cb7, 0xc089c0e0],
                                count = replicate 8 0, done = 1\<rparr>\<rparr>, [AlreadyDone])"
  by (simp add: md4_update_def md4_update_loop_small MD4Update_done)

text \<open>
  C6, as the code has it: a call with more than 512 bits on an unfinished context, whose
  count with the bits of the call added still fits the 64 bits of the count field, prints
  the line "MD4Update called with illegal count value" and returns, without a value that
  tells the caller; no block is compressed, the state words and the finished flag are
  unchanged.  The adapter's feed makes such a call when the byte length times 8, kept in
  an \<^verbatim>\<open>int\<close>, is negative; it prints the same line, leaves the same context and returns 1.
\<close>

theorem illegal_count_logged:
  assumes "done MDp = 0" and "512 < n" and "length (count MDp) = 8"
    and "count_value (count MDp) + unat n < 2 ^ 64"
  shows "\<exists>MD'. MD4Update MDp X n XX0 = Inr (MD', [IllegalCount n])
           \<and> buffer MD' = buffer MDp \<and> done MD' = done MDp \<and> length (count MD') = 8
           \<and> (ucast (len * 8) = n \<and> n <s 0 \<longrightarrow>
                md4_update (c\<lparr>priv := Some MDp\<rparr>) data len XX1
                  = Inr (1, c\<lparr>priv := Some MD'\<rparr>, [IllegalCount n]))"
proof -
  from add_count_fits [OF assms(3,4)] obtain c' where
    c': "add_count n 0 (count MDp) = Some c'" "length c' = 8" by blast
  have u: "MD4Update MDp Y n YY = Inr (MDp\<lparr>count := c'\<rparr>, [IllegalCount n])" for Y YY
    using assms(1,2) c'(1) by (rule MD4Update_illegal)
  show ?thesis
    using u c'(2) by (auto simp: md4_update_def md4_update_loop_negative)
qed

theorem illegal_count_logged_witness:
  "done (MD4Init calloc_MD4_CTX) = 0 \<and> (512::u32) < 0x80000000
   \<and> length (count (MD4Init calloc_MD4_CTX)) = 8
   \<and> count_value (count (MD4Init calloc_MD4_CTX)) + unat (0x80000000::u32) < 2 ^ 64
   \<and> ucast ((0x10000000 :: 64 word) * 8) = (0x80000000::u32) \<and> (0x80000000::u32) <s 0
   \<and> (\<exists>MD'. MD4Update (MD4Init calloc_MD4_CTX) None 0x80000000 (\<lambda>_. 0)
                 = Inr (MD', [IllegalCount 0x80000000])
           \<and> buffer MD' = buffer (MD4Init calloc_MD4_CTX) \<and> done MD' = done (MD4Init calloc_MD4_CTX)
           \<and> length (count MD') = 8
           \<and> md4_update \<lparr>priv = Some (MD4Init calloc_MD4_CTX)\<rparr> (Some (\<lambda>_. 0x61)) 0x10000000 (\<lambda>_. 0)
               = Inr (1, \<lparr>priv = Some MD'\<rparr>, [IllegalCount 0x80000000]))"
proof -
  have h: "done (MD4Init calloc_MD4_CTX) = 0 \<and> (512::u32) < 0x80000000
      \<and> length (count (MD4Init calloc_MD4_CTX)) = 8
      \<and> count_value (count (MD4Init calloc_MD4_CTX)) + unat (0x80000000::u32) < 2 ^ 64
      \<and> ucast ((0x10000000 :: 64 word) * 8) = (0x80000000::u32) \<and> (0x80000000::u32) <s 0"
    by (simp add: MD4Init_calloc replicate8 word_sless_alt)
  with illegal_count_logged [of "MD4Init calloc_MD4_CTX" "0x80000000" None "\<lambda>_. 0"
         "0x10000000" "\<lparr>priv = None\<rparr>" "Some (\<lambda>_. 0x61)" "\<lambda>_. 0"]
  show ?thesis by (simp del: ex_simps)
qed

text \<open>
  The claim C6 as stated fails: the bit count is added to the count field before the size
  is checked.  A call with 513 bits on a fresh context leaves the count bytes
  01 02 00 .. 00 behind, and so does the adapter when the byte length times 8 no longer
  fits an \<^verbatim>\<open>int\<close>: a buffer of \<open>2^28\<close> bytes reaches the engine as one call with
  \<open>2^31\<close> bits, and the adapter returns 1.
\<close>

theorem illegal_count_counterexample:
  "MD4Update (MD4Init calloc_MD4_CTX) None 513 (\<lambda>_. 0)
     = Inr (\<lparr>buffer = [I0, I1, I2, I3], count = [1, 2, 0, 0, 0, 0, 0, 0], done = 0\<rparr>,
            [IllegalCount 513])
   \<and> md4_update \<lparr>priv = Some (MD4Init calloc_MD4_CTX)\<rparr> (Some (\<lambda>_. 0x61)) 0x10000000 (\<lambda>_. 0)
     = Inr (1, \<lparr>priv = Some \<lparr>buffer = [I0, I1, I2, I3], count = [0, 0, 0, 0x80, 0, 0, 0, 0], done = 0\<rparr>\<rparr>,
            [IllegalCount 0x80000000])
   \<and> count (MD4Init calloc_MD4_CTX) = [0, 0, 0, 0, 0, 0, 0, 0]"
proof -
  have a: "add_count 513 0 [0, 0, 0, 0, 0, 0, 0, 0] = Some [1, 2, 0, 0, 0, 0, 0, 0]"
    by (simp add: add_count.simps)
  have b: "add_count 0x80000000 0 [0, 0, 0, 0, 0, 0, 0, 0] = Some [0, 0, 0, 0x80, 0, 0, 0, 0]"
    by (simp add: add_count.simps)
  have s: "\<not> 512 <s (0x80000000 :: u32)"
    by (simp add: word_sless_alt)
  have l: "md4_update_loop MDp X 0x80000000 XX0 = MD4Update MDp X 0x80000000 XX0" for MDp X XX0
    by (subst md4_update_loop.simps) (simp add: s)
  show ?thesis
    by (simp add: md4_update_def l MD4Update_def MD4Init_calloc replicate8 a b)
qed

section \<open>The bit count\<close>




section \<open>The block transform\<close>

text \<open>
  C3: the block transform changes only the four state words, and the new state words are
  the function of the old ones and of the 64 bytes that the specification describes:
  little-endian message words, three rounds with their selection functions, constants,
  rotate amounts and word orders, and the final addition modulo \<open>2^32\<close>.
\<close>

theorem MDblock_is_spec_block:
  assumes "length (buffer MDp) = 4"
  shows "MDblock MDp Xb = MDp\<lparr>buffer := spec_block (buffer MDp) (map Xb [0..<64])\<rparr>
       \<and> count (MDblock MDp Xb) = count MDp \<and> done (MDblock MDp Xb) = done MDp
       \<and> length (buffer (MDblock MDp Xb)) = 4"
  using assms MDblock_spec [OF assms, of Xb] by (simp add: spec_block_def Let_def split: prod.splits)


theorem MDblock_is_spec_block_witness:
  "length (buffer (MD4Init calloc_MD4_CTX)) = 4
   \<and> spec_block [I0, I1, I2, I3] (map ((!) (0x80 # replicate 55 0 @ replicate 8 0)) [0..<64])
       = [0xe0cfd631, 0x31e96ad1, 0xd7593cb7, 0xc089c0e0]"
proof -
  have l: "length (buffer (MD4Init calloc_MD4_CTX)) = 4"
    by (simp add: MD4Init_calloc)
  from MDblock_is_spec_block [OF l, of "(!) (0x80 # replicate 55 0 @ replicate 8 0)"]
  have "buffer (MDblock (MD4Init calloc_MD4_CTX) ((!) (0x80 # replicate 55 0 @ replicate 8 0)))
      = spec_block [I0, I1, I2, I3] (map ((!) (0x80 # replicate 55 0 @ replicate 8 0)) [0..<64])"
    by (simp add: MD4Init_calloc)
  then show ?thesis
    using l by (simp add: MD4Init_calloc MDblock_empty)
qed

section \<open>Terminal feed and known digests\<close>

text \<open>
  C4: a feed of fewer than 512 bits on an unfinished context is terminal.  The partial
  bytes, the 1 bit after the last valid bit and zeros make a 64-byte block; with the
  boundary in byte 55 or before, the count goes to offset 56 and this one block is
  compressed, otherwise this block and then a block of 56 zeros and the count; the
  context is marked finished.  So messages of 55, 56 and 57 bytes, fed in one call and
  finished, get the digest of the reference computation.
\<close>

theorem terminal_feed_pads:
  "(done MDp = 0 \<and> n < 512 \<and> add_count n 0 (count MDp) = Some c \<and> (n = 0 \<or> X = Some x) \<longrightarrow>
      MD4Update MDp X n XX0 = Inr (spec_terminal (MDp\<lparr>count := c\<rparr>) x (unat n), [])
      \<and> done (spec_terminal (MDp\<lparr>count := c\<rparr>) x (unat n)) = 1)
   \<and> (length M \<in> {55, 56, 57} \<longrightarrow>
        md4_run [(buf_ptr M rest, of_nat (length M), XX1)] XX2 = Inr (spec_md4 M, []))"
proof (intro conjI impI)
  assume a: "done MDp = 0 \<and> n < 512 \<and> add_count n 0 (count MDp) = Some c \<and> (n = 0 \<or> X = Some x)"
  then show "MD4Update MDp X n XX0 = Inr (spec_terminal (MDp\<lparr>count := c\<rparr>) x (unat n), [])"
    using MD4Update_partial [of MDp n c X x XX0] by blast
  show "done (spec_terminal (MDp\<lparr>count := c\<rparr>) x (unat n)) = 1"
    by (simp add: spec_terminal_def Let_def)
next
  assume "length M \<in> {55, 56, 57}"
  then have "length M < 64" by auto
  then show "md4_run [(buf_ptr M rest, of_nat (length M), XX1)] XX2 = Inr (spec_md4 M, [])"
    by (rule md4_run_is_spec)
qed

theorem terminal_feed_pads_witness:
  "done (MD4Init calloc_MD4_CTX) = 0 \<and> (24 :: u32) < 512
   \<and> add_count 24 0 (count (MD4Init calloc_MD4_CTX)) = Some [24, 0, 0, 0, 0, 0, 0, 0]
   \<and> MD4Update (MD4Init calloc_MD4_CTX) (Some (\<lambda>_. 0x61)) 24 (\<lambda>_. 0)
       = Inr (spec_terminal \<lparr>buffer = [I0, I1, I2, I3], count = [24, 0, 0, 0, 0, 0, 0, 0], done = 0\<rparr>
                (\<lambda>_. 0x61) 24, [])
   \<and> length (replicate 56 (0x61 :: byte)) \<in> {55, 56, 57}
   \<and> md4_run [(buf_ptr (replicate 56 0x61) (\<lambda>_. 0), 56, \<lambda>_. 0)] (\<lambda>_. 0)
       = Inr (spec_md4 (replicate 56 0x61), [])"
proof -
  have a: "add_count 24 0 [0, 0, 0, 0, 0, 0, 0, 0] = Some [24, 0, 0, 0, 0, 0, 0, 0]"
    by (simp add: add_count.simps)
  have h: "done (MD4Init calloc_MD4_CTX) = 0 \<and> (24 :: u32) < 512
      \<and> add_count 24 0 (count (MD4Init calloc_MD4_CTX)) = Some [24, 0, 0, 0, 0, 0, 0, 0]"
    by (simp add: MD4Init_calloc replicate8 a)
  from terminal_feed_pads [of "MD4Init calloc_MD4_CTX" 24 "[24, 0, 0, 0, 0, 0, 0, 0]"
      "Some (\<lambda>_. 0x61)" "\<lambda>_. 0x61" "\<lambda>_. 0" "replicate 56 0x61" "\<lambda>_. 0" "\<lambda>_. 0" "\<lambda>_. 0"] h
  show ?thesis by (simp add: MD4Init_calloc replicate8)
qed

text \<open>
  C1: the digests of the empty string, of "abc" and of "message digest", each fed in one
  call and finished, in bytes and in lowercase hexadecimal; without any feed the finish
  alone gives the digest of the empty string, because the zero-bit feed it issues on the
  fresh context pads and finalizes.
\<close>

theorem md4_known_vectors:
  "md4_run [(buf_ptr (bytes_of []) rest, 0, XX0)] XX1
     = Inr ([0x31, 0xd6, 0xcf, 0xe0, 0xd1, 0x6a, 0xe9, 0x31, 0xb7, 0x3c, 0x59, 0xd7, 0xe0, 0xc0, 0x89, 0xc0], [])
   \<and> md4_run [] XX1
     = Inr ([0x31, 0xd6, 0xcf, 0xe0, 0xd1, 0x6a, 0xe9, 0x31, 0xb7, 0x3c, 0x59, 0xd7, 0xe0, 0xc0, 0x89, 0xc0], [])
   \<and> hex_of [0x31, 0xd6, 0xcf, 0xe0, 0xd1, 0x6a, 0xe9, 0x31, 0xb7, 0x3c, 0x59, 0xd7, 0xe0, 0xc0, 0x89, 0xc0]
     = ''31d6cfe0d16ae931b73c59d7e0c089c0''
   \<and> md4_run [(buf_ptr (bytes_of ''abc'') rest, 3, XX0)] XX1
     = Inr ([0xa4, 0x48, 0x01, 0x7a, 0xaf, 0x21, 0xd8, 0x52, 0x5f, 0xc1, 0x0a, 0xe8, 0x7a, 0xa6, 0x72, 0x9d], [])
   \<and> hex_of [0xa4, 0x48, 0x01, 0x7a, 0xaf, 0x21, 0xd8, 0x52, 0x5f, 0xc1, 0x0a, 0xe8, 0x7a, 0xa6, 0x72, 0x9d]
     = ''a448017aaf21d8525fc10ae87aa6729d''
   \<and> md4_run [(buf_ptr (bytes_of ''message digest'') rest, 14, XX0)] XX1
     = Inr ([0xd9, 0x13, 0x0a, 0x81, 0x64, 0x54, 0x9f, 0xe8, 0x18, 0x87, 0x48, 0x06, 0xe1, 0xc7, 0x01, 0x4b], [])
   \<and> hex_of [0xd9, 0x13, 0x0a, 0x81, 0x64, 0x54, 0x9f, 0xe8, 0x18, 0x87, 0x48, 0x06, 0xe1, 0xc7, 0x01, 0x4b]
     = ''d9130a8164549fe818874806e1c7014b''
   \<and> MD4Update (MD4Init calloc_MD4_CTX) X 0 XX0
     = Inr (\<lparr>buffer = [0xe0cfd631, 0x31e96ad1, 0xd7593cb7, 0xc089c0e0], count = replicate 8 0, done = 1\<rparr>, [])"
proof (intro conjI)
  show "md4_run [] XX1 = Inr ([0x31, 0xd6, 0xcf, 0xe0, 0xd1, 0x6a, 0xe9, 0x31, 0xb7, 0x3c, 0x59, 0xd7, 0xe0, 0xc0, 0x89, 0xc0], [])"
    by (simp add: md4_run_def md4_init_def md4_final_def MD4Final_def MD4Update_empty upt4 emit_word4)
qed (simp_all add: bytes_of_def vec_empty_digest vec_abc_digest vec_message_digest_digest
      MD4Update_empty hex_of_def printf_02x_def hex_digit_def)

section \<open>Feeding in pieces\<close>

text \<open>
  C2, as the code has it: the adapter cuts each feed into engine calls of 512 bits and one
  last call with the rest, and the engine finishes the digest at every call of fewer than
  512 bits.  So the digest of pieces fed one after the other is the digest of the whole
  message fed in one call when every piece but the last has a length that is a positive
  multiple of 64 bytes (and the message is shorter than \<open>2^28\<close> bytes); the run then
  succeeds and prints nothing.
\<close>

theorem chunk_invariance_aligned:
  assumes "\<forall>c\<in>set (butlast chunks). 0 < length (fst c) \<and> length (fst c) mod 64 = 0"
    and "length (concat (map fst chunks)) < 2 ^ 28"
  shows "md4_run (map (\<lambda>(M, rest, XX). (buf_ptr M rest, of_nat (length M), XX)) chunks) XX1
       = md4_run [(buf_ptr (concat (map fst chunks)) rest',
                   of_nat (length (concat (map fst chunks))), XX')] XX2
    \<and> (\<exists>d. md4_run [(buf_ptr (concat (map fst chunks)) rest',
                        of_nat (length (concat (map fst chunks))), XX')] XX2 = Inr (d, [])
             \<and> length d = 16)"
proof
  have "md4_run (map (\<lambda>(M, rest, XX). (buf_ptr M rest, of_nat (length M), XX)) chunks) XX1
      = then_do (feed_ctx (MD4Init calloc_MD4_CTX) (buf_ptr (concat (map fst chunks)) rest',
                   of_nat (length (concat (map fst chunks))), XX'))
          (\<lambda>MDp'. finish_ctx MDp' XX1)"
    unfolding md4_run_ctx by (rule chunks_eq [OF assms])
  also have "\<dots> = then_do (feed_ctx (MD4Init calloc_MD4_CTX) (buf_ptr (concat (map fst chunks)) rest',
                   of_nat (length (concat (map fst chunks))), XX'))
          (\<lambda>MDp'. finish_ctx MDp' XX2)"
    using finish_ctx_scratch [of _ XX1 XX2] by simp
  finally show "md4_run (map (\<lambda>(M, rest, XX). (buf_ptr M rest, of_nat (length M), XX)) chunks) XX1
       = md4_run [(buf_ptr (concat (map fst chunks)) rest',
                   of_nat (length (concat (map fst chunks))), XX')] XX2"
    by (simp add: md4_run_ctx)
  show "\<exists>d. md4_run [(buf_ptr (concat (map fst chunks)) rest',
                        of_nat (length (concat (map fst chunks))), XX')] XX2 = Inr (d, [])
             \<and> length d = 16"
    using assms(2) by (rule md4_run_single_ok)
qed

theorem chunk_invariance_aligned_witness:
  "0 < length (replicate 64 (0x61 :: byte)) \<and> length (replicate 64 (0x61 :: byte)) mod 64 = 0
   \<and> length (replicate 64 (0x61 :: byte) @ [0x62, 0x63]) < 2 ^ 28
   \<and> md4_run [(buf_ptr (replicate 64 0x61) (\<lambda>_. 0), 64, \<lambda>_. 0), (buf_ptr [0x62, 0x63] (\<lambda>_. 0), 2, \<lambda>_. 0)] (\<lambda>_. 0)
     = md4_run [(buf_ptr (replicate 64 0x61 @ [0x62, 0x63]) (\<lambda>_. 0), 66, \<lambda>_. 0)] (\<lambda>_. 0)"
proof -
  let ?chunks = "[(replicate 64 (0x61 :: byte), \<lambda>_::nat. 0 :: byte, \<lambda>_::nat. 0 :: byte), ([0x62, 0x63], \<lambda>_. 0, \<lambda>_. 0)]"
  have h1: "\<forall>c\<in>set (butlast ?chunks). 0 < length (fst c) \<and> length (fst c) mod 64 = 0"
    by simp
  have h2: "length (concat (map fst ?chunks)) < 2 ^ 28"
    by simp
  from chunk_invariance_aligned [OF h1 h2, of "\<lambda>_. 0" "\<lambda>_. 0" "\<lambda>_. 0" "\<lambda>_. 0"]
  show ?thesis by simp
qed

text \<open>
  The claim C2 as stated fails: "a" and then "bc" give the digest of "a", with the line of
  the rejected second feed on stdout, not the digest of "abc".
\<close>

theorem chunk_invariance_counterexample:
  "md4_run [(buf_ptr [0x61] (\<lambda>_. 0), 1, \<lambda>_. 0), (buf_ptr [0x62, 0x63] (\<lambda>_. 0), 2, \<lambda>_. 0)] (\<lambda>_. 0)
     = Inr ([0xbd, 0xe5, 0x2c, 0xb3, 0x1d, 0xe3, 0x3e, 0x46, 0x24, 0x5e, 0x05, 0xfb, 0xdb, 0xd6, 0xfb, 0x24], [AlreadyDone])
   \<and> md4_run [(buf_ptr [0x61, 0x62, 0x63] (\<lambda>_. 0), 3, \<lambda>_. 0)] (\<lambda>_. 0)
     = Inr ([0xa4, 0x48, 0x01, 0x7a, 0xaf, 0x21, 0xd8, 0x52, 0x5f, 0xc1, 0x0a, 0xe8, 0x7a, 0xa6, 0x72, 0x9d], [])"
proof
  let ?fa = "\<lparr>buffer = [0xb32ce5bd, 0x463ee31d, 0xfb055e24, 0x24fbd6db], count = [8, 0, 0, 0, 0, 0, 0, 0], done = (1::u32)\<rparr>"
  have f1: "feed_ctx (MD4Init calloc_MD4_CTX) (buf_ptr [0x61] (\<lambda>_. 0), 1, \<lambda>_. 0) = Inr (?fa, [])"
    using feed_ctx_short [of "[0x61]" 1 "\<lambda>_. 0" "\<lambda>_. 0"]
    by (simp add: spec_le_bytes8 vec_a_block)
  have f2: "feed_ctx ?fa (buf_ptr [0x62, 0x63] (\<lambda>_. 0), 2, \<lambda>_. 0) = Inr (?fa, [AlreadyDone])"
    by (simp add: feed_ctx_def md4_update_loop_small MD4Update_done)
  show "md4_run [(buf_ptr [0x61] (\<lambda>_. 0), 1, \<lambda>_. 0), (buf_ptr [0x62, 0x63] (\<lambda>_. 0), 2, \<lambda>_. 0)] (\<lambda>_. 0)
     = Inr ([0xbd, 0xe5, 0x2c, 0xb3, 0x1d, 0xe3, 0x3e, 0x46, 0x24, 0x5e, 0x05, 0xfb, 0xdb, 0xd6, 0xfb, 0x24], [AlreadyDone])"
    by (simp add: md4_run_ctx f1 f2 then_do_def finish_ctx_done upt4 emit_word4)
  show "md4_run [(buf_ptr [0x61, 0x62, 0x63] (\<lambda>_. 0), 3, \<lambda>_. 0)] (\<lambda>_. 0)
     = Inr ([0xa4, 0x48, 0x01, 0x7a, 0xaf, 0x21, 0xd8, 0x52, 0x5f, 0xc1, 0x0a, 0xe8, 0x7a, 0xa6, 0x72, 0x9d], [])"
    by (rule vec_abc_digest)
qed

end
